theory Spec2Isabelle
  imports Complex_Main "HOL-Library.Word"
begin

section \<open>Numbers\<close>

text \<open>
  A finite number of the program is modelled by the real number it denotes. Where the
  program turns a product, a quotient or a difference into a frame index, a frame count or
  a step size, the model rounds the exact result to the nearest double first, ties to the
  even significand, as the arithmetic of the platform does: \<open>fl\<close> is that rounding,
  \<open>binade\<close> the exponent of the binade of a number, below \<open>2^-1022\<close> the doubles being
  evenly spaced. The values of samples are computed exactly.
\<close>

definition rne :: "real \<Rightarrow> int" where
  "rne x = (let f = \<lfloor>x\<rfloor>; d = x - of_int f
            in if d < 1 / 2 then f else if 1 / 2 < d then f + 1 else if even f then f else f + 1)"

definition binade :: "real \<Rightarrow> int" where
  "binade x = max \<lfloor>log 2 \<bar>x\<bar>\<rfloor> (- 1022)"

definition fl :: "real \<Rightarrow> real" where
  "fl x = (let u = 2 powi (binade x - 52) in of_int (rne (x / u)) * u)"

text \<open>
  An integer-valued number: a whole number, an infinity, or not a number. \<open>floor_dbl x\<close>
  is \<open>Math.floor\<close> of the double nearest to \<open>x\<close>, which is an infinity from \<open>2^1024\<close> on.
\<close>

datatype xint = Fin int | PInf | MInf | NaN

definition floor_dbl :: "real \<Rightarrow> xint" where
  "floor_dbl x = (if \<bar>fl x\<bar> < 2 ^ 1024 then Fin \<lfloor>fl x\<rfloor> else if 0 < x then PInf else MInf)"

text \<open>\<open>a - b\<close>, \<open>a < b\<close> and \<open>a <= 0\<close> on such numbers.\<close>

definition xsub :: "xint \<Rightarrow> xint \<Rightarrow> xint" where
  "xsub a b = (case (a, b) of
       (Fin x, Fin y) \<Rightarrow> floor_dbl (of_int x - of_int y)
     | (Fin _, PInf) \<Rightarrow> MInf
     | (Fin _, MInf) \<Rightarrow> PInf
     | (PInf, Fin _) \<Rightarrow> PInf
     | (PInf, MInf) \<Rightarrow> PInf
     | (MInf, Fin _) \<Rightarrow> MInf
     | (MInf, PInf) \<Rightarrow> MInf
     | _ \<Rightarrow> NaN)"

definition xless :: "xint \<Rightarrow> xint \<Rightarrow> bool" where
  "xless a b = (case (a, b) of
       (Fin x, Fin y) \<Rightarrow> x < y
     | (Fin _, PInf) \<Rightarrow> True
     | (MInf, Fin _) \<Rightarrow> True
     | (MInf, PInf) \<Rightarrow> True
     | _ \<Rightarrow> False)"

definition le0 :: "xint \<Rightarrow> bool" where
  "le0 a = (case a of Fin x \<Rightarrow> x \<le> 0 | MInf \<Rightarrow> True | _ \<Rightarrow> False)"

text \<open>
  The conversion of a number to the \<open>unsigned long\<close> of a Web IDL argument: modulo \<open>2^32\<close>,
  and zero for an infinity or for what is not a number.
\<close>

definition to_ulong :: "xint \<Rightarrow> nat" where
  "to_ulong a = (case a of Fin x \<Rightarrow> nat (x mod 2 ^ 32) | _ \<Rightarrow> 0)"

section \<open>Typed arrays, the store and AudioBuffer\<close>

text \<open>
  A \<open>Float32Array\<close> is a list of samples. The store holds every channel array that has
  been allocated, a channel array is named by its index in the store, and a new array is
  appended at the end, so that aliasing, fresh allocation and in-place mutation are all
  visible in the model.
\<close>

datatype error = RangeError | NotSupportedError | TypeError

type_synonym store = "real list list"

record AudioBuffer =
  sampleRate :: real
  blength :: nat
  channelData :: "nat list"

definition numberOfChannels :: "AudioBuffer \<Rightarrow> nat" where
  "numberOfChannels b = length (channelData b)"

definition getChannelData :: "store \<Rightarrow> AudioBuffer \<Rightarrow> nat \<Rightarrow> real list" where
  "getChannelData h b c = h ! (channelData b ! c)"

text \<open>
  The invariant of an AudioBuffer of the Web Audio API: at least one channel, at least one
  frame, channels are separate arrays of the store, each of \<open>length\<close> frames.
\<close>

definition wf_buffer :: "store \<Rightarrow> AudioBuffer \<Rightarrow> bool" where
  "wf_buffer h b \<longleftrightarrow>
     channelData b \<noteq> [] \<and> 0 < blength b \<and> distinct (channelData b) \<and>
     list_all (\<lambda>a. a < length h \<and> length (h ! a) = blength b) (channelData b)"

text \<open>
  \<open>createBuffer(numberOfChannels, length, sampleRate)\<close> allocates zero-filled channels; the
  platform raises NotSupportedError for a channel count or a frame count of zero. Every
  call of the program passes the sample rate of a buffer that exists, which is a rate
  that the platform supports.
\<close>

definition createBuffer :: "store \<Rightarrow> nat \<Rightarrow> nat \<Rightarrow> real \<Rightarrow> error + (store \<times> AudioBuffer)" where
  "createBuffer h nch len sr =
     (if nch = 0 \<or> len = 0 then Inl NotSupportedError
      else Inr (h @ replicate nch (replicate len 0),
                \<lparr>sampleRate = sr, blength = len, channelData = [length h ..< length h + nch]\<rparr>))"

text \<open>
  Relative indices of \<open>slice\<close> and \<open>subarray\<close>: a negative index counts from the end, and
  both ends are clamped to the array; what is not a number counts as zero.
\<close>

definition rel_index :: "nat \<Rightarrow> xint \<Rightarrow> nat" where
  "rel_index n k = (case k of
       Fin i \<Rightarrow> if i < 0 then nat (max (int n + i) 0) else min (nat i) n
     | PInf \<Rightarrow> n
     | MInf \<Rightarrow> 0
     | NaN \<Rightarrow> 0)"

definition ta_slice :: "real list \<Rightarrow> xint \<Rightarrow> xint \<Rightarrow> real list" where
  "ta_slice xs s e =
     (let k = rel_index (length xs) s; f = rel_index (length xs) e
      in take (f - k) (drop k xs))"

text \<open>\<open>target.set(source, offset)\<close>: RangeError unless the source fits at the offset.\<close>

definition ta_set :: "real list \<Rightarrow> real list \<Rightarrow> xint \<Rightarrow> error + real list" where
  "ta_set target src offset =
     (case (case offset of Fin k \<Rightarrow> Some k | NaN \<Rightarrow> Some 0 | _ \<Rightarrow> None) of
        None \<Rightarrow> Inl RangeError
      | Some off \<Rightarrow>
          if off < 0 \<or> int (length target) < int (length src) + off then Inl RangeError
          else Inr (take (nat off) target @ src @ drop (nat off + length src) target))"

text \<open>\<open>xs.subarray(s, e).reverse()\<close>: the view shares the array, so the array changes.\<close>

definition subarray_reverse :: "real list \<Rightarrow> xint \<Rightarrow> xint \<Rightarrow> real list" where
  "subarray_reverse xs s e =
     (let k = rel_index (length xs) s; f = rel_index (length xs) e
      in if f \<le> k then xs else take k xs @ rev (take (f - k) (drop k xs)) @ drop f xs)"

text \<open>
  \<open>buffer.copyToChannel(source, channelNumber)\<close> copies as many frames as fit, from the
  start of the channel.
\<close>

definition copyToChannel :: "store \<Rightarrow> AudioBuffer \<Rightarrow> real list \<Rightarrow> nat \<Rightarrow> store" where
  "copyToChannel h b src c =
     (let a = channelData b ! c; dst = h ! a
      in h[a := take (length dst) src @ drop (length src) dst])"

text \<open>A loop whose body may raise: the first error ends it.\<close>

fun foldE :: "('a \<Rightarrow> 's \<Rightarrow> error + 's) \<Rightarrow> 'a list \<Rightarrow> 's \<Rightarrow> error + 's" where
  "foldE f [] s = Inr s"
| "foldE f (x # xs) s = (case f x s of Inl e \<Rightarrow> Inl e | Inr s' \<Rightarrow> foldE f xs s')"

text \<open>A loop whose body may have no result: the first body without one ends it.\<close>

fun foldO :: "('a \<Rightarrow> 's \<Rightarrow> 's option) \<Rightarrow> 'a list \<Rightarrow> 's \<Rightarrow> 's option" where
  "foldO f [] s = Some s"
| "foldO f (x # xs) s = (case f x s of None \<Rightarrow> None | Some s' \<Rightarrow> foldO f xs s')"

section \<open>sliceBuffer and reverseRange\<close>

definition sliceBuffer :: "store \<Rightarrow> AudioBuffer \<Rightarrow> real \<Rightarrow> real \<Rightarrow> error + (store \<times> AudioBuffer option)" where
  "sliceBuffer h buffer startRatio endRatio =
     (let startFrame = floor_dbl (startRatio * real (blength buffer));
          endFrame = floor_dbl (endRatio * real (blength buffer));
          frameCount = xsub endFrame startFrame
      in if le0 frameCount then Inr (h, None)
         else case createBuffer h (numberOfChannels buffer) (to_ulong frameCount) (sampleRate buffer) of
                Inl e \<Rightarrow> Inl e
              | Inr (h0, newBuffer) \<Rightarrow>
                  Inr (fold (\<lambda>i h'. copyToChannel h' newBuffer
                                      (ta_slice (getChannelData h' buffer i) startFrame endFrame) i)
                            [0 ..< numberOfChannels buffer] h0,
                       Some newBuffer))"

definition reverseRange :: "store \<Rightarrow> AudioBuffer \<Rightarrow> real \<Rightarrow> real \<Rightarrow> error + (store \<times> AudioBuffer)" where
  "reverseRange h buffer startTime endTime =
     (case createBuffer h (numberOfChannels buffer) (blength buffer) (sampleRate buffer) of
        Inl e \<Rightarrow> Inl e
      | Inr (h0, newBuffer) \<Rightarrow>
          (let startFrame = floor_dbl (startTime * sampleRate buffer);
               endFrame = floor_dbl (endTime * sampleRate buffer)
           in case foldE (\<lambda>i h'.
                     case ta_set (getChannelData h' newBuffer i) (getChannelData h' buffer i) (Fin 0) of
                       Inl e \<Rightarrow> Inl e
                     | Inr newData \<Rightarrow>
                         Inr (h'[channelData newBuffer ! i :=
                                   (if xless startFrame endFrame
                                    then subarray_reverse newData startFrame endFrame
                                    else newData)]))
                   [0 ..< numberOfChannels buffer] h0 of
                Inl e \<Rightarrow> Inl e
              | Inr h1 \<Rightarrow> Inr (h1, newBuffer)))"

section \<open>DSP and math\<close>

text \<open>
  A quotient whose divisor is zero is an infinity or NaN in the program and no real number:
  \<open>None\<close>.
\<close>

definition fdiv :: "real \<Rightarrow> real \<Rightarrow> real option" where
  "fdiv a b = (if b = 0 then None else Some (a / b))"

text \<open>
  \<open>typeof amount === 'number' ? amount : 50\<close>: an amount that is no number is \<open>None\<close>.
  The table is filled for i = 0, ..., n_samples - 1 in turn.
\<close>

definition makeDistortionCurve :: "real option \<Rightarrow> real option list" where
  "makeDistortionCurve amount =
     (let k = (case amount of Some a \<Rightarrow> a | None \<Rightarrow> 50);
          n_samples = 44100;
          deg = pi / 180
      in map (\<lambda>i. let x = (real i * 2) / real n_samples - 1
                  in fdiv ((3 + k) * x * 20 * deg) (pi + k * \<bar>x\<bar>))
             [0 ..< n_samples])"

text \<open>\<open>Math.round\<close> rounds to the nearest integer, a tie towards plus infinity.\<close>

definition js_round :: "real \<Rightarrow> int" where
  "js_round x = \<lfloor>x + 1 / 2\<rfloor>"

text \<open>
  \<open>stepSize = Math.floor(1 / normFreq)\<close>: the quotient is the nearest double, and an
  infinity when \<open>normFreq\<close> is zero.
\<close>

definition step_size :: "real \<Rightarrow> xint" where
  "step_size normFreq = (if normFreq = 0 then PInf else floor_dbl (1 / normFreq))"

text \<open>
  \<open>i % stepSize === 0\<close>: the remainder by zero is not a number, and the remainder of an
  index by an infinity is the index.
\<close>

definition on_step :: "real \<Rightarrow> nat \<Rightarrow> bool" where
  "on_step normFreq i =
     (case step_size normFreq of
        Fin k \<Rightarrow> k \<noteq> 0 \<and> int i mod \<bar>k\<bar> = 0
      | NaN \<Rightarrow> False
      | _ \<Rightarrow> i = 0)"

text \<open>
  \<open>step = 1 / Math.pow(2, bits)\<close> and \<open>stepScale = 1 / step\<close>: from \<open>bits = 1024\<close> on the
  power is an infinity, and down from \<open>bits = -1024\<close> its reciprocal is one; one of
  \<open>step\<close> and \<open>stepScale\<close> is then zero and the other an infinity, which is \<open>None\<close> here.
\<close>

definition bit_steps :: "real \<Rightarrow> (real \<times> real) option" where
  "bit_steps bits =
     (if - 1024 < bits \<and> bits < 1024
      then Some (1 / (2 powr bits), 1 / (1 / (2 powr bits)))
      else None)"

text \<open>
  \<open>Math.round(sample * stepScale) * step\<close>, as it is stored in a \<open>Float32Array\<close>: a
  number, or \<open>None\<close> for what is stored when zero meets an infinity, when the scaled
  sample leaves the range of a double, or when the quantized sample leaves the range of a
  32-bit float. The two products are taken exactly, as they are computed for whole
  \<open>bits\<close>, where \<open>step\<close> and \<open>stepScale\<close> are powers of two.
\<close>

definition quantize :: "(real \<times> real) option \<Rightarrow> real \<Rightarrow> real option" where
  "quantize steps sample =
     (case steps of
        None \<Rightarrow> None
      | Some (step, stepScale) \<Rightarrow>
          if 2 ^ 1024 \<le> \<bar>sample * stepScale\<bar> then None
          else let v = real_of_int (js_round (sample * stepScale)) * step
               in if 2 ^ 128 - 2 ^ 103 \<le> \<bar>v\<bar> then None else Some v)"

text \<open>
  The loop over the frames of one channel. Its result is \<open>None\<close> when a value that is
  not a finite number has been stored in the channel.
\<close>

function bitcrush_loop :: "(real \<times> real) option \<Rightarrow> real \<Rightarrow> nat \<Rightarrow> nat \<Rightarrow> real \<Rightarrow> real list \<Rightarrow> real list option" where
  "bitcrush_loop steps normFreq len i lastSample data =
     (if i < len then
        (if on_step normFreq i
         then (case quantize steps (data ! i) of
                 None \<Rightarrow> None
               | Some sample \<Rightarrow> bitcrush_loop steps normFreq len (Suc i) sample (data[i := sample]))
         else bitcrush_loop steps normFreq len (Suc i) lastSample (data[i := lastSample]))
      else Some data)"
  by pat_completeness auto
termination
  by (relation "measure (\<lambda>(steps, normFreq, len, i, lastSample, data). len - i)") auto

definition applyMathBitcrush :: "store \<Rightarrow> AudioBuffer \<Rightarrow> real \<Rightarrow> real \<Rightarrow> store option" where
  "applyMathBitcrush h buffer bits normFreq =
     (let channels = numberOfChannels buffer;
          len = blength buffer;
          steps = bit_steps bits
      in foldO (\<lambda>c h'. case bitcrush_loop steps normFreq len 0 0 (getChannelData h' buffer c) of
                          None \<Rightarrow> None
                        | Some data \<Rightarrow> Some (h'[channelData buffer ! c := data]))
               [0 ..< channels] h)"

section \<open>Offline effects processing\<close>

text \<open>The parameter object: a property that is absent is \<open>None\<close>.\<close>

record params =
  amount :: "real option"
  time :: "real option"
  feedback :: "real option"
  bits :: "real option"
  normFreq :: "real option"
  volume :: "real option"

text \<open>\<open>v || d\<close> on a number: an absent property and zero are falsy.\<close>

definition or_default :: "real option \<Rightarrow> real \<Rightarrow> real" where
  "or_default v d = (case v of None \<Rightarrow> d | Some x \<Rightarrow> if x = 0 then d else x)"

text \<open>
  The graph that is connected between the clip source and the destination of an offline
  context. \<open>Delay t g\<close> is the dry path summed with the delay line of time \<open>t\<close> and
  feedback gain \<open>g\<close>; \<open>ExportChain\<close> is the equalizer bank followed by the master gain.
\<close>

datatype graph =
    Unconnected
  | WaveShaper "real option list"
  | Delay real real
  | Passthrough
  | ExportChain "real list" "real option"

text \<open>
  Rendering an offline context is the platform's work: a parameter of the model, which
  receives the graph, the sample rate, the channel count and the frame count of the
  context, and the channels of the source buffer. The context returns a buffer of the
  shape it was constructed with.
\<close>

type_synonym renderer = "graph \<Rightarrow> real \<Rightarrow> nat \<Rightarrow> nat \<Rightarrow> real list list \<Rightarrow> real list list"

definition renderer_ok :: "renderer \<Rightarrow> bool" where
  "renderer_ok render \<longleftrightarrow>
     (\<forall>g sr nch n cs. length (render g sr nch n cs) = nch \<and>
                      list_all (\<lambda>c. length c = n) (render g sr nch n cs))"

definition startRendering :: "renderer \<Rightarrow> store \<Rightarrow> graph \<Rightarrow> nat \<Rightarrow> nat \<Rightarrow> real \<Rightarrow> AudioBuffer \<Rightarrow> store \<times> AudioBuffer" where
  "startRendering render h g nch n sr src =
     (let out = render g sr nch n (map (\<lambda>a. h ! a) (channelData src))
      in (h @ out, \<lparr>sampleRate = sr, blength = n, channelData = [length h ..< length h + length out]\<rparr>))"

definition effect_graph :: "string \<Rightarrow> params \<Rightarrow> graph" where
  "effect_graph effectType ps =
     (if effectType = ''distortion'' then WaveShaper (makeDistortionCurve (amount ps))
      else if effectType = ''delay''
        then Delay (or_default (time ps) (3 / 10)) (or_default (feedback ps) (1 / 2))
      else if effectType = ''bitcrush'' then Passthrough
      else Unconnected)"

text \<open>
  The result carries a flag, which is False when the bitcrusher has stored a value that is
  not a finite number in the processed clip; the store then holds the clip as it was
  rendered in place of what the bitcrusher has made of it.
\<close>

definition renderOfflineEffect :: "renderer \<Rightarrow> store \<Rightarrow> AudioBuffer \<Rightarrow> real \<Rightarrow> real \<Rightarrow> string \<Rightarrow> params \<Rightarrow> error + (store \<times> AudioBuffer \<times> bool)" where
  "renderOfflineEffect render h originalBuffer regionStart regionEnd effectType ps =
     (let sr = sampleRate originalBuffer;
          channels = numberOfChannels originalBuffer;
          startFrame = floor_dbl (regionStart * sr);
          endFrame = floor_dbl (regionEnd * sr);
          lengthFrame = xsub endFrame startFrame
      in if le0 lengthFrame then Inr (h, originalBuffer, True)
         else case createBuffer h channels (to_ulong lengthFrame) sr of
           Inl e \<Rightarrow> Inl e
         | Inr (h0, tempBuffer) \<Rightarrow>
            (let h1 = fold (\<lambda>c h'. copyToChannel h' tempBuffer
                                     (ta_slice (getChannelData h' originalBuffer c) startFrame endFrame) c)
                           [0 ..< channels] h0;
                 (h2, processedClip) =
                    startRendering render h1 (effect_graph effectType ps) channels (to_ulong lengthFrame) sr tempBuffer;
                 crushed = (if effectType = ''bitcrush''
                            then applyMathBitcrush h2 processedClip
                                   (or_default (bits ps) 8) (or_default (normFreq ps) (1 / 2))
                            else Some h2);
                 h3 = (case crushed of None \<Rightarrow> h2 | Some h' \<Rightarrow> h')
             in case createBuffer h3 channels (blength originalBuffer) sr of
               Inl e \<Rightarrow> Inl e
             | Inr (h4, finalBuffer) \<Rightarrow>
                (case foldE (\<lambda>c h'.
                         case ta_set (getChannelData h' finalBuffer c) (getChannelData h' originalBuffer c) (Fin 0) of
                           Inl e \<Rightarrow> Inl e
                         | Inr data \<Rightarrow>
                            (case ta_set data (getChannelData h' processedClip c) startFrame of
                               Inl e \<Rightarrow> Inl e
                             | Inr data' \<Rightarrow> Inr (h'[channelData finalBuffer ! c := data'])))
                       [0 ..< channels] h4 of
                   Inl e \<Rightarrow> Inl e
                 | Inr h5 \<Rightarrow> Inr (h5, finalBuffer, crushed \<noteq> None))))"

text \<open>The router: \<open>type\<close> may be \<open>null\<close>, which is \<open>None\<close>.\<close>

definition processRange :: "renderer \<Rightarrow> store \<Rightarrow> AudioBuffer \<Rightarrow> string option \<Rightarrow> real \<Rightarrow> real \<Rightarrow> params \<Rightarrow> error + (store \<times> AudioBuffer \<times> bool)" where
  "processRange render h buffer type startTime endTime ps =
     (case type of
        None \<Rightarrow> Inr (h, buffer, True)
      | Some t \<Rightarrow>
          if t = ''reverse''
            then (case reverseRange h buffer startTime endTime of
                    Inl e \<Rightarrow> Inl e
                  | Inr (h', newBuffer) \<Rightarrow> Inr (h', newBuffer, True))
          else if t \<in> set [''distortion'', ''delay'', ''bitcrush'']
            then renderOfflineEffect render h buffer startTime endTime t ps
          else Inr (h, buffer, True))"

section \<open>The player: freezing an effect\<close>

record region =
  rstart :: real
  rend :: real

record player =
  originalBuffer :: "AudioBuffer option"
  activeRegion :: "region option"
  currentEffectType :: "string option"
  effectParams :: params
  eqGains :: "real list"
  masterGain :: "real option"

text \<open>
  The loop \<open>for (i = startSample; i < endSample && i < data.length; i++) data[i] = data[i] * vol\<close>.
  A typed array ignores a write at a negative index. The counter is a double: \<open>i++\<close>
  rounds, and leaves an infinity where it is, so the loop need not end, which is \<open>None\<close>.
\<close>

definition xsucc :: "xint \<Rightarrow> xint" where
  "xsucc i = (case i of Fin k \<Rightarrow> floor_dbl (of_int k + 1) | _ \<Rightarrow> i)"

partial_function (option) gain_loop :: "real \<Rightarrow> xint \<Rightarrow> xint \<Rightarrow> real list \<Rightarrow> real list option" where
  "gain_loop vol endSample i data =
     (if xless i endSample \<and> xless i (Fin (int (length data)))
      then gain_loop vol endSample (xsucc i)
             (case i of
                Fin k \<Rightarrow> if 0 \<le> k then data[nat k := data ! nat k * vol] else data
              | _ \<Rightarrow> data)
      else Some data)"

definition local_gain :: "store \<Rightarrow> AudioBuffer \<Rightarrow> region \<Rightarrow> real \<Rightarrow> store option" where
  "local_gain h newBuffer r vol =
     (let startSample = floor_dbl (rstart r * sampleRate newBuffer);
          endSample = floor_dbl (rend r * sampleRate newBuffer)
      in foldO (\<lambda>channel h'.
                  case gain_loop vol endSample startSample (getChannelData h' newBuffer channel) of
                    None \<Rightarrow> None
                  | Some data \<Rightarrow> Some (h'[channelData newBuffer ! channel := data]))
               [0 ..< numberOfChannels newBuffer] h)"

text \<open>Of \<open>closeEffectPanel\<close>, the part that changes the state modelled here.\<close>

definition closeEffectPanel :: "player \<Rightarrow> player" where
  "closeEffectPanel p = p\<lparr>activeRegion := None, currentEffectType := None\<rparr>"

text \<open>
  \<open>freezeCurrentEffect\<close>: an exception of the offline processing is caught and logged, and
  the player is left as it was. Without a buffer, an effect type that reads the buffer
  raises a TypeError, and any other type closes the panel only. The result is \<open>None\<close>
  when the gain loop does not end, and its flag is the flag of the offline processing.
\<close>

definition freezeCurrentEffect :: "renderer \<Rightarrow> store \<Rightarrow> player \<Rightarrow> (store \<times> player \<times> bool) option" where
  "freezeCurrentEffect render h p =
     (case activeRegion p of
        None \<Rightarrow> Some (h, p, True)
      | Some r \<Rightarrow>
         (case originalBuffer p of
            None \<Rightarrow>
              (if currentEffectType p \<in> Some ` set [''reverse'', ''distortion'', ''delay'', ''bitcrush'']
               then Some (h, p, True) else Some (h, closeEffectPanel p, True))
          | Some buffer \<Rightarrow>
             (case processRange render h buffer (currentEffectType p) (rstart r) (rend r) (effectParams p) of
                Inl e \<Rightarrow> Some (h, p, True)
              | Inr (h1, newBuffer, numeric) \<Rightarrow>
                 (case (case volume (effectParams p) of
                          None \<Rightarrow> Some h1
                        | Some vol \<Rightarrow> local_gain h1 newBuffer r vol) of
                    None \<Rightarrow> None
                  | Some h2 \<Rightarrow>
                      Some (h2, (closeEffectPanel p)\<lparr>originalBuffer := Some newBuffer\<rparr>, numeric)))))"

section \<open>WAV encoding and the export pipeline\<close>

type_synonym byte = "8 word"

text \<open>Conversion of a number to an integer truncates towards zero.\<close>

definition js_trunc :: "real \<Rightarrow> int" where
  "js_trunc x = (if x < 0 then \<lceil>x\<rceil> else \<lfloor>x\<rfloor>)"

text \<open>
  The \<open>n\<close> little-endian bytes of an integer modulo \<open>256 ^ n\<close>: what \<open>setUint16\<close> and
  \<open>setUint32\<close> with \<open>littleEndian = true\<close> write, and what a store into an \<open>Int16Array\<close>
  writes (two's complement, in the byte order of the platform, taken to be little-endian).
\<close>

definition int_le :: "nat \<Rightarrow> int \<Rightarrow> byte list" where
  "int_le n v = map (\<lambda>k. word_of_int (v div 256 ^ k)) [0 ..< n]"

definition view_set :: "byte list \<Rightarrow> nat \<Rightarrow> byte list \<Rightarrow> byte list" where
  "view_set view off bs = take off view @ bs @ drop (off + length bs) view"

definition writeString :: "byte list \<Rightarrow> nat \<Rightarrow> string \<Rightarrow> byte list" where
  "writeString view off s = view_set view off (map of_char s)"

definition setUint16 :: "byte list \<Rightarrow> nat \<Rightarrow> real \<Rightarrow> byte list" where
  "setUint16 view off v = view_set view off (int_le 2 (js_trunc v))"

definition setUint32 :: "byte list \<Rightarrow> nat \<Rightarrow> real \<Rightarrow> byte list" where
  "setUint32 view off v = view_set view off (int_le 4 (js_trunc v))"

text \<open>The clamp and the scaling of a sample.\<close>

definition clamp_sample :: "real \<Rightarrow> real" where
  "clamp_sample sample = max (- 1) (min 1 sample)"

definition scale16 :: "real \<Rightarrow> real" where
  "scale16 sample = (if sample < 0 then sample * 32768 else sample * 32767)"

text \<open>
  The value stored for frame \<open>i\<close> of a channel. Beyond the end of the channel the read is
  \<open>undefined\<close>, the arithmetic gives NaN, and NaN is stored as 0.
\<close>

definition frame_value :: "real list \<Rightarrow> nat \<Rightarrow> int" where
  "frame_value chan i = (if i < length chan then js_trunc (scale16 (clamp_sample (chan ! i))) else 0)"

text \<open>\<open>len || abuffer.length\<close>: a frame count that is absent or 0 is falsy.\<close>

definition wave_length :: "AudioBuffer \<Rightarrow> nat option \<Rightarrow> nat" where
  "wave_length abuffer len =
     (case len of None \<Rightarrow> blength abuffer | Some n \<Rightarrow> if n = 0 then blength abuffer else n)"

definition bufferToWave :: "store \<Rightarrow> AudioBuffer \<Rightarrow> nat option \<Rightarrow> byte list" where
  "bufferToWave h abuffer len =
     (let numOfChan = numberOfChannels abuffer;
          length' = wave_length abuffer len;
          lengthInBytes = length' * numOfChan * 2;
          buffer = replicate (44 + lengthInBytes) 0;
          v1 = writeString buffer 0 ''RIFF'';
          v2 = setUint32 v1 4 (real (36 + lengthInBytes));
          v3 = writeString v2 8 ''WAVE'';
          v4 = writeString v3 12 ''fmt '';
          v5 = setUint32 v4 16 16;
          v6 = setUint16 v5 20 1;
          v7 = setUint16 v6 22 (real numOfChan);
          v8 = setUint32 v7 24 (sampleRate abuffer);
          v9 = setUint32 v8 28 (sampleRate abuffer * 2 * real numOfChan);
          v10 = setUint16 v9 32 (real (numOfChan * 2));
          v11 = setUint16 v10 34 16;
          v12 = writeString v11 36 ''data'';
          v13 = setUint32 v12 40 (real lengthInBytes);
          channels = map (getChannelData h abuffer) [0 ..< numOfChan]
      in view_set v13 44
           (concat (map (\<lambda>i. concat (map (\<lambda>ch. int_le 2 (frame_value (channels ! ch) i))
                                          [0 ..< numOfChan]))
                        [0 ..< length'])))"

text \<open>Reading a little-endian field back, unsigned and as a signed 16-bit value.\<close>

definition rd_le :: "byte list \<Rightarrow> nat \<Rightarrow> nat \<Rightarrow> nat" where
  "rd_le bs off n = foldr (\<lambda>b acc. unat b + 256 * acc) (take n (drop off bs)) 0"

definition rd_int16 :: "byte list \<Rightarrow> nat \<Rightarrow> int" where
  "rd_int16 bs off = (let u = int (rd_le bs off 2) in if 32768 \<le> u then u - 65536 else u)"

text \<open>The normalizing step of the export: the peak scan, then the scaling in place.\<close>

definition scan_peak :: "real list \<Rightarrow> real \<Rightarrow> real" where
  "scan_peak data maxPeak = fold (\<lambda>x m. if \<bar>x\<bar> > m then \<bar>x\<bar> else m) data maxPeak"

definition max_peak :: "store \<Rightarrow> AudioBuffer \<Rightarrow> real" where
  "max_peak h renderedBuffer =
     fold (\<lambda>c m. scan_peak (getChannelData h renderedBuffer c) m)
          [0 ..< numberOfChannels renderedBuffer] 0"

definition normalize :: "store \<Rightarrow> AudioBuffer \<Rightarrow> store" where
  "normalize h renderedBuffer =
     (let maxPeak = max_peak h renderedBuffer
      in if maxPeak > 0
         then (let normFactor = (98 / 100) / maxPeak
               in fold (\<lambda>c h'. h'[channelData renderedBuffer ! c :=
                                    map (\<lambda>x. x * normFactor) (getChannelData h' renderedBuffer c)])
                       [0 ..< numberOfChannels renderedBuffer] h)
         else h)"

definition getProcessedWavBlob :: "renderer \<Rightarrow> store \<Rightarrow> player \<Rightarrow> (store \<times> byte list) option" where
  "getProcessedWavBlob render h p =
     (case originalBuffer p of
        None \<Rightarrow> None
      | Some b \<Rightarrow>
         (let (h1, renderedBuffer) =
                startRendering render h (ExportChain (eqGains p) (masterGain p))
                  (numberOfChannels b) (blength b) (sampleRate b) b;
              h2 = normalize h1 renderedBuffer
          in Some (h2, bufferToWave h2 renderedBuffer (Some (blength renderedBuffer)))))"

text \<open>A renderer that returns silence of the shape of its context, and a small buffer.\<close>

definition silent_render :: renderer where
  "silent_render g sr nch n cs = replicate nch (replicate n 0)"

text \<open>A renderer whose clip holds, at every sample, the feedback gain of the delay it was given.\<close>

definition feedback_render :: renderer where
  "feedback_render g sr nch n cs =
     replicate nch (replicate n (case g of Delay t fbk \<Rightarrow> fbk | _ \<Rightarrow> 0))"

text \<open>A renderer that returns a clip with every sample at one value.\<close>

definition flat_render :: "real \<Rightarrow> renderer" where
  "flat_render v g sr nch n cs = replicate nch (replicate n v)"

definition store0 :: store where
  "store0 = [[1 / 2, - 1 / 4, 1 / 8, - 1], [0, 1 / 4, 3 / 2, - 2]]"

definition buffer0 :: AudioBuffer where
  "buffer0 = \<lparr>sampleRate = 2, blength = 4, channelData = [0, 1]\<rparr>"

text \<open>A buffer of four frames of one channel at 44100 Hz.\<close>

definition store1 :: store where
  "store1 = [[1 / 2, - 1 / 4, 1 / 8, - 1]]"

definition buffer1 :: AudioBuffer where
  "buffer1 = \<lparr>sampleRate = 44100, blength = 4, channelData = [0]\<rparr>"

text \<open>A buffer of ten frames of one channel at 44100 Hz.\<close>

definition store2 :: store where
  "store2 = [[0, 1 / 16, 2 / 16, 3 / 16, 4 / 16, 5 / 16, 6 / 16, 7 / 16, 8 / 16, 9 / 16]]"

definition buffer2 :: AudioBuffer where
  "buffer2 = \<lparr>sampleRate = 44100, blength = 10, channelData = [0]\<rparr>"

section \<open>Loops over the channels of a buffer\<close>

text \<open>
  A loop over channels in which each round reads one array and overwrites another (or the
  same) array: every target holds what its round computed from the store before the loop,
  and every other array is as before.
\<close>

lemma fold_chan_update:
  assumes "\<And>i h'. i \<in> set is \<Longrightarrow> f i h' = h'[dst i := body i (h' ! src i) (h' ! dst i)]"
      and "distinct (map dst is)" and "\<forall>i\<in>set is. dst i < length h"
      and "\<forall>i\<in>set is. \<forall>j\<in>set is. i \<noteq> j \<longrightarrow> src j \<noteq> dst i"
  shows "length (fold f is h) = length h \<and>
         (\<forall>i\<in>set is. fold f is h ! dst i = body i (h ! src i) (h ! dst i)) \<and>
         (\<forall>a. a \<notin> dst ` set is \<longrightarrow> fold f is h ! a = h ! a)"
  using assms
proof (induction "is" arbitrary: h)
  case Nil
  then show ?case by simp
next
  case (Cons x xs)
  let ?h1 = "h[dst x := body x (h ! src x) (h ! dst x)]"
  have f: "\<And>i h'. i \<in> set xs \<Longrightarrow> f i h' = h'[dst i := body i (h' ! src i) (h' ! dst i)]"
    using Cons.prems(1) by simp
  have d: "distinct (map dst xs)" and nx: "dst x \<notin> dst ` set xs"
    using Cons.prems(2) by auto
  have xin: "x \<notin> set xs" using nx by auto
  have b: "\<forall>i\<in>set xs. dst i < length ?h1" using Cons.prems(3) by simp
  have c: "\<forall>i\<in>set xs. \<forall>j\<in>set xs. i \<noteq> j \<longrightarrow> src j \<noteq> dst i"
    using Cons.prems(4) by simp
  note IH = Cons.IH [OF f d b c]
  have same: "\<forall>k\<in>set xs. ?h1 ! src k = h ! src k \<and> ?h1 ! dst k = h ! dst k"
  proof
    fix k assume k: "k \<in> set xs"
    then have "k \<noteq> x" using xin by auto
    then have "src k \<noteq> dst x" using Cons.prems(4) k by auto
    moreover have "dst k \<noteq> dst x" using nx k by (metis imageI)
    ultimately show "?h1 ! src k = h ! src k \<and> ?h1 ! dst k = h ! dst k" by simp
  qed
  have fx: "fold f (x # xs) h = fold f xs ?h1" using Cons.prems(1) [of x h] by simp
  have "length (fold f (x # xs) h) = length h" using IH fx by simp
  moreover have "\<forall>i\<in>set (x # xs). fold f (x # xs) h ! dst i = body i (h ! src i) (h ! dst i)"
  proof
    fix i assume "i \<in> set (x # xs)"
    then consider "i = x" | "i \<in> set xs" by auto
    then show "fold f (x # xs) h ! dst i = body i (h ! src i) (h ! dst i)"
    proof cases
      case 1
      have "fold f xs ?h1 ! dst x = ?h1 ! dst x" using IH nx by blast
      also have "\<dots> = body x (h ! src x) (h ! dst x)" using Cons.prems(3) by simp
      finally show ?thesis using 1 fx by simp
    next
      case 2
      then show ?thesis using IH same fx by simp
    qed
  qed
  moreover have "\<forall>a. a \<notin> dst ` set (x # xs) \<longrightarrow> fold f (x # xs) h ! a = h ! a"
  proof (intro allI impI)
    fix a assume a: "a \<notin> dst ` set (x # xs)"
    then have "fold f xs ?h1 ! a = ?h1 ! a" using IH by auto
    moreover have "a \<noteq> dst x" using a by auto
    ultimately show "fold f (x # xs) h ! a = h ! a" using fx by simp
  qed
  ultimately show ?case by blast
qed

lemma foldE_chan_update:
  assumes "\<And>i h'. i \<in> set is \<Longrightarrow>
             f i h' = (case body i (h' ! src i) (h' ! dst i) of
                         Inl e \<Rightarrow> Inl e | Inr v \<Rightarrow> Inr (h'[dst i := v]))"
      and "distinct (map dst is)" and "\<forall>i\<in>set is. dst i < length h"
      and "\<forall>i\<in>set is. \<forall>j\<in>set is. i \<noteq> j \<longrightarrow> src j \<noteq> dst i"
      and "\<forall>i\<in>set is. body i (h ! src i) (h ! dst i) = Inr (G i)"
  shows "\<exists>h'. foldE f is h = Inr h' \<and> length h' = length h \<and>
         (\<forall>i\<in>set is. h' ! dst i = G i) \<and>
         (\<forall>a. a \<notin> dst ` set is \<longrightarrow> h' ! a = h ! a)"
  using assms
proof (induction "is" arbitrary: h)
  case Nil
  then show ?case by simp
next
  case (Cons x xs)
  let ?h1 = "h[dst x := G x]"
  have f: "\<And>i h'. i \<in> set xs \<Longrightarrow>
             f i h' = (case body i (h' ! src i) (h' ! dst i) of
                         Inl e \<Rightarrow> Inl e | Inr v \<Rightarrow> Inr (h'[dst i := v]))"
    using Cons.prems(1) by simp
  have d: "distinct (map dst xs)" and nx: "dst x \<notin> dst ` set xs"
    using Cons.prems(2) by auto
  have xin: "x \<notin> set xs" using nx by auto
  have b: "\<forall>i\<in>set xs. dst i < length ?h1" using Cons.prems(3) by simp
  have c: "\<forall>i\<in>set xs. \<forall>j\<in>set xs. i \<noteq> j \<longrightarrow> src j \<noteq> dst i"
    using Cons.prems(4) by simp
  have same: "\<forall>k\<in>set xs. ?h1 ! src k = h ! src k \<and> ?h1 ! dst k = h ! dst k"
  proof
    fix k assume k: "k \<in> set xs"
    then have "k \<noteq> x" using xin by auto
    then have "src k \<noteq> dst x" using Cons.prems(4) k by auto
    moreover have "dst k \<noteq> dst x" using nx k by (metis imageI)
    ultimately show "?h1 ! src k = h ! src k \<and> ?h1 ! dst k = h ! dst k" by simp
  qed
  have e: "\<forall>i\<in>set xs. body i (?h1 ! src i) (?h1 ! dst i) = Inr (G i)"
    using Cons.prems(5) same by simp
  from Cons.IH [OF f d b c e] obtain h' where
    h': "foldE f xs ?h1 = Inr h'" "length h' = length ?h1"
        "\<forall>i\<in>set xs. h' ! dst i = G i" "\<forall>a. a \<notin> dst ` set xs \<longrightarrow> h' ! a = ?h1 ! a"
    by blast
  have fx: "foldE f (x # xs) h = Inr h'"
    using h'(1) Cons.prems(5) Cons.prems(1) [of x h] by simp
  have "h' ! dst x = G x" using h'(4) nx Cons.prems(3) by simp
  moreover have "\<forall>a. a \<notin> dst ` set (x # xs) \<longrightarrow> h' ! a = h ! a"
    using h'(4) by auto
  ultimately show ?case using fx h'(2,3) by auto
qed

lemma foldO_chan_update:
  assumes "\<And>i h'. i \<in> set is \<Longrightarrow>
             f i h' = (case body i (h' ! src i) (h' ! dst i) of
                         None \<Rightarrow> None | Some v \<Rightarrow> Some (h'[dst i := v]))"
      and "distinct (map dst is)" and "\<forall>i\<in>set is. dst i < length h"
      and "\<forall>i\<in>set is. \<forall>j\<in>set is. i \<noteq> j \<longrightarrow> src j \<noteq> dst i"
      and "\<forall>i\<in>set is. body i (h ! src i) (h ! dst i) = Some (G i)"
  shows "\<exists>h'. foldO f is h = Some h' \<and> length h' = length h \<and>
         (\<forall>i\<in>set is. h' ! dst i = G i) \<and>
         (\<forall>a. a \<notin> dst ` set is \<longrightarrow> h' ! a = h ! a)"
  using assms
proof (induction "is" arbitrary: h)
  case Nil
  then show ?case by simp
next
  case (Cons x xs)
  let ?h1 = "h[dst x := G x]"
  have f: "\<And>i h'. i \<in> set xs \<Longrightarrow>
             f i h' = (case body i (h' ! src i) (h' ! dst i) of
                         None \<Rightarrow> None | Some v \<Rightarrow> Some (h'[dst i := v]))"
    using Cons.prems(1) by simp
  have d: "distinct (map dst xs)" and nx: "dst x \<notin> dst ` set xs"
    using Cons.prems(2) by auto
  have xin: "x \<notin> set xs" using nx by auto
  have b: "\<forall>i\<in>set xs. dst i < length ?h1" using Cons.prems(3) by simp
  have c: "\<forall>i\<in>set xs. \<forall>j\<in>set xs. i \<noteq> j \<longrightarrow> src j \<noteq> dst i"
    using Cons.prems(4) by simp
  have same: "\<forall>k\<in>set xs. ?h1 ! src k = h ! src k \<and> ?h1 ! dst k = h ! dst k"
  proof
    fix k assume k: "k \<in> set xs"
    then have "k \<noteq> x" using xin by auto
    then have "src k \<noteq> dst x" using Cons.prems(4) k by auto
    moreover have "dst k \<noteq> dst x" using nx k by (metis imageI)
    ultimately show "?h1 ! src k = h ! src k \<and> ?h1 ! dst k = h ! dst k" by simp
  qed
  have e: "\<forall>i\<in>set xs. body i (?h1 ! src i) (?h1 ! dst i) = Some (G i)"
    using Cons.prems(5) same by simp
  from Cons.IH [OF f d b c e] obtain h' where
    h': "foldO f xs ?h1 = Some h'" "length h' = length ?h1"
        "\<forall>i\<in>set xs. h' ! dst i = G i" "\<forall>a. a \<notin> dst ` set xs \<longrightarrow> h' ! a = ?h1 ! a"
    by blast
  have fx: "foldO f (x # xs) h = Some h'"
    using h'(1) Cons.prems(5) Cons.prems(1) [of x h] by simp
  have "h' ! dst x = G x" using h'(4) nx Cons.prems(3) by simp
  moreover have "\<forall>a. a \<notin> dst ` set (x # xs) \<longrightarrow> h' ! a = h ! a"
    using h'(4) by auto
  ultimately show ?case using fx h'(2,3) by auto
qed

text \<open>What every round of a loop keeps, the loop keeps.\<close>

lemma foldO_invariant:
  assumes "foldO f xs s = Some s'" and "P s"
      and "\<And>x t t'. x \<in> set xs \<Longrightarrow> P t \<Longrightarrow> f x t = Some t' \<Longrightarrow> P t'"
  shows "P s'"
  using assms
proof (induction xs arbitrary: s)
  case Nil
  then show ?case by simp
next
  case (Cons x xs)
  from Cons.prems(1) obtain t where t: "f x s = Some t" "foldO f xs t = Some s'"
    by (auto split: option.splits)
  have pt: "P t" using Cons.prems(3) [of x s t] Cons.prems(2) t(1) by simp
  show ?case
  proof (rule Cons.IH [OF t(2) pt])
    fix y u u' assume "y \<in> set xs" "P u" "f y u = Some u'"
    then show "P u'" using Cons.prems(3) [of y u u'] by simp
  qed
qed

section \<open>Rounding to a double\<close>

lemma rne_of_int: "rne (of_int k) = k"
  by (simp add: rne_def)

lemma rne_cases: "rne x = \<lfloor>x\<rfloor> \<or> rne x = \<lfloor>x\<rfloor> + 1"
  by (simp add: rne_def Let_def)

lemma rne_le_int: "x \<le> of_int k \<Longrightarrow> rne x \<le> k"
proof -
  assume a: "x \<le> of_int k"
  show ?thesis
  proof (cases "x = of_int k")
    case True
    then show ?thesis by (simp add: rne_of_int)
  next
    case False
    with a have "x < of_int k" by simp
    hence "\<lfloor>x\<rfloor> < k" by (simp add: floor_less_iff)
    with rne_cases [of x] show ?thesis by auto
  qed
qed

lemma rne_ge_int: "of_int k \<le> x \<Longrightarrow> k \<le> rne x"
proof -
  assume a: "of_int k \<le> x"
  hence "k \<le> \<lfloor>x\<rfloor>" by (simp add: le_floor_iff)
  with rne_cases [of x] show ?thesis by auto
qed

lemma binade_eq:
  assumes "2 powi e \<le> \<bar>x\<bar>" "\<bar>x\<bar> < 2 powi (e + 1)" "- 1022 \<le> e"
  shows "binade x = e"
proof -
  have pos: "0 < \<bar>x\<bar>" using assms(1) by (smt (verit) zero_less_power_int)
  have p1: "(2::real) powr real_of_int e = 2 powi e"
    by (simp add: powr_real_of_int')
  have p2: "(2::real) powr real_of_int (e + 1) = 2 powi (e + 1)"
    by (simp add: powr_real_of_int' del: of_int_add)
  have c: "2 powr real_of_int e \<le> \<bar>x\<bar> \<and> \<bar>x\<bar> < 2 powr real_of_int (e + 1)"
    unfolding p1 p2 using assms(1,2) by (rule conjI)
  have two: "(1::real) < 2" by simp
  have "\<lfloor>log 2 \<bar>x\<bar>\<rfloor> = e"
    by (rule iffD2 [OF floor_log_eq_powr_iff [OF pos two] c])
  then show ?thesis using assms(3) by (simp add: binade_def)
qed

lemma binade_ge: "- 1022 \<le> binade x"
  by (simp add: binade_def)

lemma binade_le:
  assumes "\<bar>x\<bar> < 2 powi e" "- 1022 < e" "x \<noteq> 0"
  shows "binade x < e"
proof -
  have False: "x \<noteq> 0" by fact
  have p1: "(2::real) powr real_of_int e = 2 powi e"
    by (simp add: powr_real_of_int')
  have "log 2 \<bar>x\<bar> < real_of_int e"
    using assms(1) False by (simp add: log_less_iff p1)
  hence "\<lfloor>log 2 \<bar>x\<bar>\<rfloor> < e" by (simp add: floor_less_iff)
  then show ?thesis using assms(2) by (simp add: binade_def)
qed

lemma fl_eval: "binade x = e \<Longrightarrow> rne (x / 2 powi (e - 52)) = m \<Longrightarrow> fl x = of_int m * 2 powi (e - 52)"
  by (simp add: fl_def)


lemma unit_pos: "0 < (2::real) powi n"
  by simp

lemma fl_nonneg: "0 \<le> x \<Longrightarrow> 0 \<le> fl x"
proof -
  assume a: "0 \<le> x"
  define u :: real where "u = 2 powi (binade x - 52)"
  have u: "0 < u" by (simp add: u_def)
  have "of_int 0 \<le> x / u" using a u by simp
  hence "0 \<le> rne (x / u)" by (rule rne_ge_int)
  then show ?thesis using u by (simp add: fl_def u_def [symmetric])
qed

lemma fl_nonpos: "x \<le> 0 \<Longrightarrow> fl x \<le> 0"
proof -
  assume a: "x \<le> 0"
  define u :: real where "u = 2 powi (binade x - 52)"
  have u: "0 < u" by (simp add: u_def)
  have "x / u \<le> of_int 0" using a u by (simp add: divide_nonpos_pos)
  hence "rne (x / u) \<le> 0" by (rule rne_le_int)
  then show ?thesis using u by (simp add: fl_def u_def [symmetric] mult_le_0_iff)
qed

text \<open>Below \<open>2^53\<close> the doubles include every integer: the unit of a binade divides one.\<close>

lemma unit_divides:
  assumes "x \<noteq> 0" "\<bar>x\<bar> < 2 ^ 53"
  shows "\<exists>k::nat. 2 powi (binade x - 52) * 2 ^ k = (1::real)"
proof -
  have "\<bar>x\<bar> < 2 powi 53" using assms(2) by simp
  hence "binade x < 53" using assms(1) by (intro binade_le) simp_all
  hence le: "binade x - 52 \<le> 0" by simp
  define k where "k = nat (52 - binade x)"
  have e: "binade x - 52 = - int k" using le by (simp add: k_def)
  have "2 powi (binade x - 52) * 2 ^ k = (1::real)"
    unfolding e by (simp add: power_int_minus)
  then show ?thesis ..
qed

lemma fl_int_bounds:
  assumes "x \<noteq> 0" "\<bar>x\<bar> < 2 ^ 53"
  shows "(x \<le> of_int N \<longrightarrow> fl x \<le> of_int N) \<and> (of_int N \<le> x \<longrightarrow> of_int N \<le> fl x)"
proof -
  define u :: real where "u = 2 powi (binade x - 52)"
  have u: "0 < u" by (simp add: u_def)
  from unit_divides [OF assms] obtain k :: nat where k: "u * 2 ^ k = 1"
    unfolding u_def by auto
  have "real_of_int N / u = real_of_int N * 2 ^ k"
    using k u by (simp add: field_simps)
  hence Nu: "real_of_int N / u = of_int (N * 2 ^ k)" by simp
  have back_eq: "real_of_int (N * 2 ^ k) * u = real_of_int N"
    using k by (simp add: mult.assoc mult.commute [of _ u])
  have flx: "fl x = real_of_int (rne (x / u)) * u" by (simp add: fl_def u_def [symmetric])
  have up: "fl x \<le> of_int N" if "x \<le> of_int N"
  proof -
    have "x / u \<le> real_of_int N / u" using that u by (simp add: divide_right_mono)
    hence "x / u \<le> of_int (N * 2 ^ k)" unfolding Nu .
    hence "rne (x / u) \<le> N * 2 ^ k" by (rule rne_le_int)
    hence "real_of_int (rne (x / u)) \<le> real_of_int (N * 2 ^ k)" by (simp only: of_int_le_iff)
    hence "real_of_int (rne (x / u)) * u \<le> real_of_int (N * 2 ^ k) * u"
      using u by (simp add: mult_right_mono)
    then show ?thesis unfolding back_eq flx .
  qed
  have lo: "of_int N \<le> fl x" if "of_int N \<le> x"
  proof -
    have "real_of_int N / u \<le> x / u" using that u by (simp add: divide_right_mono)
    hence "of_int (N * 2 ^ k) \<le> x / u" unfolding Nu .
    hence "N * 2 ^ k \<le> rne (x / u)" by (rule rne_ge_int)
    hence "real_of_int (N * 2 ^ k) \<le> real_of_int (rne (x / u))" by (simp only: of_int_le_iff)
    hence "real_of_int (N * 2 ^ k) * u \<le> real_of_int (rne (x / u)) * u"
      using u by (simp add: mult_right_mono)
    then show ?thesis unfolding back_eq flx .
  qed
  from up lo show ?thesis by blast
qed

lemma real_int_less_pow: "N < 2 ^ 53 \<Longrightarrow> real_of_int N < 2 ^ 53"
  by (metis of_int_less_numeral_power_cancel_iff)

lemma fl_le_int:
  assumes "x \<le> of_int N" "0 \<le> N" "N < 2 ^ 53"
  shows "fl x \<le> of_int N"
proof (cases "x \<le> 0")
  case True
  hence "fl x \<le> 0" by (rule fl_nonpos)
  then show ?thesis using assms(2) by simp
next
  case False
  hence pos: "0 < x" by simp
  have "real_of_int N < 2 ^ 53" using assms(3) by (rule real_int_less_pow)
  hence small: "\<bar>x\<bar> < 2 ^ 53" using pos assms(1) by simp
  from fl_int_bounds [of x N] pos small assms(1) show ?thesis by simp
qed

lemma fl_ge_int:
  assumes "of_int N \<le> x" "N \<le> 0" "- (2 ^ 53) < N"
  shows "of_int N \<le> fl x"
proof (cases "0 \<le> x")
  case True
  hence "0 \<le> fl x" by (rule fl_nonneg)
  then show ?thesis using assms(2) by simp
next
  case False
  hence neg: "x < 0" by simp
  have "- N < 2 ^ 53" using assms(3) by simp
  hence "real_of_int (- N) < 2 ^ 53" by (rule real_int_less_pow)
  hence small: "\<bar>x\<bar> < 2 ^ 53" using neg assms(1) by simp
  from fl_int_bounds [of x N] neg small assms(1) show ?thesis by simp
qed

lemma fl_0: "fl 0 = 0"
  by (simp add: fl_def rne_def)

lemma fl_of_int:
  assumes "\<bar>k\<bar> < 2 ^ 53"
  shows "fl (of_int k) = of_int k"
proof (cases "k = 0")
  case True
  then show ?thesis by (simp add: fl_0)
next
  case False
  have "real_of_int \<bar>k\<bar> < 2 ^ 53" using assms by (rule real_int_less_pow)
  hence small: "\<bar>real_of_int k\<bar> < 2 ^ 53" by simp
  from fl_int_bounds [of "of_int k" k] False small show ?thesis by simp
qed

lemma floor_dbl_of_int:
  assumes "\<bar>k\<bar> < 2 ^ 53"
  shows "floor_dbl (of_int k) = Fin k"
proof -
  have "real_of_int \<bar>k\<bar> < 2 ^ 53" using assms by (rule real_int_less_pow)
  hence "\<bar>real_of_int k\<bar> < 2 ^ 53" by simp
  also have "(2::real) ^ 53 < 2 ^ 1024" by (rule power_strict_increasing) simp_all
  finally show ?thesis by (simp add: floor_dbl_def fl_of_int [OF assms])
qed

lemma xsub_Fin:
  assumes "\<bar>a - b\<bar> < 2 ^ 53"
  shows "xsub (Fin a) (Fin b) = Fin (a - b)"
  using floor_dbl_of_int [OF assms] by (simp add: xsub_def)

text \<open>A number from one on rounds to a number from one on.\<close>

lemma fl_ge_one:
  assumes "1 \<le> x"
  shows "1 \<le> fl x"
proof -
  have pos: "0 < x" using assms by simp
  define e where "e = \<lfloor>log 2 x\<rfloor>"
  have "0 \<le> log 2 x" using assms by simp
  hence e0: "0 \<le> e" by (simp add: e_def)
  have ax: "\<bar>x\<bar> = x" using pos by simp
  have be: "binade x = e" using e0 unfolding binade_def ax e_def [symmetric] by simp
  have "real_of_int e \<le> log 2 x" by (simp add: e_def)
  hence "2 powr real_of_int e \<le> x" using pos by (simp add: le_log_iff)
  hence lo: "2 powi e \<le> x" by (simp add: powr_real_of_int')
  define u :: real where "u = 2 powi (e - 52)"
  have u: "0 < u" by (simp add: u_def)
  have "(2::real) powi e = 2 powi (e - 52) * 2 powi 52"
    using power_int_add [of "2::real" "e - 52" 52] by simp
  hence eu: "(2::real) powi e = of_int (2 ^ 52) * u" by (simp add: u_def)
  have "of_int (2 ^ 52) \<le> x / u" using lo u unfolding eu by (simp add: field_simps)
  hence "2 ^ 52 \<le> rne (x / u)" by (rule rne_ge_int)
  hence "real_of_int (2 ^ 52) \<le> real_of_int (rne (x / u))" by (simp only: of_int_le_iff)
  hence "real_of_int (2 ^ 52) * u \<le> real_of_int (rne (x / u)) * u"
    using u by (simp add: mult_right_mono)
  hence "2 powi e \<le> fl x" unfolding eu by (simp add: fl_def be u_def [symmetric])
  moreover have "(1::real) \<le> 2 powi e" using e0 by (simp add: one_le_power_int)
  ultimately show ?thesis by simp
qed

lemma le0_xsub_Fin: "le0 (xsub (Fin e) (Fin s)) \<longleftrightarrow> e \<le> s"
proof
  assume a: "le0 (xsub (Fin e) (Fin s))"
  show "e \<le> s"
  proof (rule ccontr)
    assume "\<not> e \<le> s"
    hence "1 \<le> real_of_int e - real_of_int s" by linarith
    hence one: "1 \<le> fl (real_of_int e - real_of_int s)" by (rule fl_ge_one)
    hence "1 \<le> \<lfloor>fl (real_of_int e - real_of_int s)\<rfloor>" by linarith
    moreover have "0 < real_of_int e - real_of_int s" using \<open>\<not> e \<le> s\<close> by simp
    ultimately have "\<not> le0 (xsub (Fin e) (Fin s))"
      by (simp add: xsub_def floor_dbl_def le0_def)
    with a show False by simp
  qed
next
  assume a: "e \<le> s"
  hence x: "real_of_int e - real_of_int s \<le> 0" by simp
  hence "fl (real_of_int e - real_of_int s) \<le> 0" by (rule fl_nonpos)
  hence "\<lfloor>fl (real_of_int e - real_of_int s)\<rfloor> \<le> 0" by linarith
  then show "le0 (xsub (Fin e) (Fin s))" using x
    by (simp add: xsub_def floor_dbl_def le0_def)
qed


lemma floor_dbl_eval:
  assumes "2 powi e \<le> \<bar>x\<bar>" "\<bar>x\<bar> < 2 powi (e + 1)" "- 1022 \<le> e" "e < 1023"
    and "rne (x / 2 powi (e - 52)) = m" "\<lfloor>of_int m * (2::real) powi (e - 52)\<rfloor> = k"
  shows "floor_dbl x = Fin k"
proof -
  define u :: real where "u = 2 powi (e - 52)"
  have u: "0 < u" by (simp add: u_def)
  have be: "binade x = e" using assms(1-3) by (rule binade_eq)
  have flx: "fl x = of_int m * u" unfolding u_def using be assms(5) by (rule fl_eval)
  have "(2::real) powi (e + 1) = 2 powi (e - 52) * 2 powi 53"
    using power_int_add [of "2::real" "e - 52" 53] by (simp add: add.commute)
  hence eu: "(2::real) powi (e + 1) = of_int (2 ^ 53) * u" by (simp add: u_def)
  have xu: "\<bar>x / u\<bar> < of_int (2 ^ 53)"
    using assms(2) u unfolding eu by (simp add: field_simps)
  define q where "q = x / u"
  have xq: "\<bar>q\<bar> < of_int (2 ^ 53)" using xu by (simp only: q_def)
  have "q \<le> of_int (2 ^ 53)" using xq by linarith
  hence "x / u \<le> of_int (2 ^ 53)" by (simp only: q_def)
  hence m1: "m \<le> 2 ^ 53" unfolding assms(5) [symmetric] u_def by (rule rne_le_int)
  have "- real_of_int (2 ^ 53) \<le> q" using xq by linarith
  hence "of_int (- (2 ^ 53)) \<le> x / u" by (simp only: q_def of_int_minus)
  hence m2: "- (2 ^ 53) \<le> m" unfolding assms(5) [symmetric] u_def by (rule rne_ge_int)
  have "\<bar>real_of_int m\<bar> \<le> real_of_int (2 ^ 53)" proof -
    have "\<bar>m\<bar> \<le> 2 ^ 53" using m1 m2 by simp
    then show ?thesis by (simp only: of_int_abs [symmetric] of_int_le_iff)
  qed
  hence "\<bar>real_of_int m\<bar> * u \<le> real_of_int (2 ^ 53) * u" using u by (simp add: mult_right_mono)
  hence "\<bar>fl x\<bar> \<le> 2 powi (e + 1)" unfolding eu flx using u by (simp add: abs_mult)
  also have "(2::real) powi (e + 1) \<le> 2 powi 1023" using assms(4) by (intro power_int_increasing) simp_all
  also have "(2::real) powi 1023 < 2 ^ 1024" by simp
  finally have "\<bar>fl x\<bar> < 2 ^ 1024" .
  then show ?thesis using assms(6) by (simp add: floor_dbl_def flx u_def)
qed

lemma floor_dbl_range:
  assumes "0 \<le> x" "x \<le> of_int N" "N < 2 ^ 53"
  shows "\<exists>k. floor_dbl x = Fin k \<and> 0 \<le> k \<and> k \<le> N"
proof -
  have N0: "0 \<le> N" using assms(1,2) by linarith
  have lo: "0 \<le> fl x" using assms(1) by (rule fl_nonneg)
  have hi: "fl x \<le> of_int N" using assms(2) N0 assms(3) by (rule fl_le_int)
  have "real_of_int N < 2 ^ 53" using assms(3) by (rule real_int_less_pow)
  also have "(2::real) ^ 53 < 2 ^ 1024" by (rule power_strict_increasing) simp_all
  finally have "\<bar>fl x\<bar> < 2 ^ 1024" using lo hi by simp
  hence "floor_dbl x = Fin \<lfloor>fl x\<rfloor>" by (simp add: floor_dbl_def)
  moreover have "0 \<le> \<lfloor>fl x\<rfloor>" using lo by simp
  moreover have "\<lfloor>fl x\<rfloor> \<le> N" using hi by (simp add: floor_le_iff)
  ultimately show ?thesis by blast
qed

lemma le0_Fin [simp]: "le0 (Fin k) \<longleftrightarrow> k \<le> 0"
  by (simp add: le0_def)

lemma xless_Fin [simp]: "xless (Fin a) (Fin b) \<longleftrightarrow> a < b"
  by (simp add: xless_def)

lemma to_ulong_Fin: "0 \<le> k \<Longrightarrow> k < 2 ^ 32 \<Longrightarrow> to_ulong (Fin k) = nat k"
  by (simp add: to_ulong_def)

text \<open>The count of the frames of a range within a buffer is computed exactly.\<close>

lemma frame_count:
  assumes "0 \<le> s" "s \<le> e" "e \<le> int N" "N < 2 ^ 32"
  shows "xsub (Fin e) (Fin s) = Fin (e - s)" "e - s < 2 ^ 32"
proof -
  have N: "int N < 2 ^ 32" using assms(4) by (metis of_nat_less_numeral_power_cancel_iff)
  show "e - s < 2 ^ 32" using assms(1-3) N by linarith
  hence "\<bar>e - s\<bar> < 2 ^ 32" using assms(2) by simp
  also have "(2::int) ^ 32 < 2 ^ 53" by simp
  finally show "xsub (Fin e) (Fin s) = Fin (e - s)" by (rule xsub_Fin)
qed

section \<open>Facts about buffers and typed arrays\<close>

lemma wf_bufferD:
  assumes "wf_buffer h b"
  shows "0 < numberOfChannels b" "0 < blength b" "distinct (channelData b)"
    and "\<And>c. c < numberOfChannels b \<Longrightarrow> channelData b ! c < length h"
    and "\<And>c. c < numberOfChannels b \<Longrightarrow> length (getChannelData h b c) = blength b"
  using assms
  by (auto simp: wf_buffer_def numberOfChannels_def getChannelData_def list_all_length)

lemma createBuffer_ok:
  assumes "0 < nch" "0 < len"
  shows "createBuffer h nch len sr =
           Inr (h @ replicate nch (replicate len 0),
                \<lparr>sampleRate = sr, blength = len, channelData = [length h ..< length h + nch]\<rparr>)"
  using assms by (simp add: createBuffer_def)

lemma rel_index_le: "rel_index n k \<le> n"
  by (auto simp: rel_index_def split: xint.splits)

lemma rel_index_nonneg: "0 \<le> k \<Longrightarrow> k \<le> int n \<Longrightarrow> rel_index n (Fin k) = nat k"
  by (simp add: rel_index_def)

lemma ta_slice_in_range:
  assumes "0 \<le> s" "s \<le> e" "e \<le> int (length xs)"
  shows "ta_slice xs (Fin s) (Fin e) = take (nat (e - s)) (drop (nat s) xs)"
    and "length (ta_slice xs (Fin s) (Fin e)) = nat (e - s)"
proof -
  have "rel_index (length xs) (Fin s) = nat s" "rel_index (length xs) (Fin e) = nat e"
    using assms by (simp_all add: rel_index_nonneg)
  moreover have "nat e - nat s = nat (e - s)" using assms by linarith
  ultimately show "ta_slice xs (Fin s) (Fin e) = take (nat (e - s)) (drop (nat s) xs)"
    by (simp add: ta_slice_def)
  then show "length (ta_slice xs (Fin s) (Fin e)) = nat (e - s)" using assms by simp
qed

lemma length_subarray_reverse [simp]: "length (subarray_reverse xs s e) = length xs"
proof -
  have "k < f \<Longrightarrow> f \<le> length xs \<Longrightarrow>
          length (take k xs @ rev (take (f - k) (drop k xs)) @ drop f xs) = length xs" for k f
    by simp
  moreover have "rel_index (length xs) e \<le> length xs" by (rule rel_index_le)
  ultimately show ?thesis by (simp add: subarray_reverse_def Let_def)
qed

lemma subarray_reverse_twice: "subarray_reverse (subarray_reverse xs s e) s e = xs"
proof -
  define k where "k = rel_index (length xs) s"
  define f where "f = rel_index (length xs) e"
  have fl: "f \<le> length xs" by (simp add: f_def rel_index_le)
  show ?thesis
  proof (cases "f \<le> k")
    case True
    then show ?thesis by (simp add: subarray_reverse_def Let_def k_def f_def)
  next
    case False
    define ys where "ys = take k xs @ rev (take (f - k) (drop k xs)) @ drop f xs"
    have ys: "subarray_reverse xs s e = ys"
      using False by (simp add: subarray_reverse_def Let_def k_def f_def ys_def)
    have len: "length ys = length xs" using ys length_subarray_reverse [of xs s e] by simp
    have kl: "k < f" using False by simp
    have t: "take k ys = take k xs" using kl fl by (simp add: ys_def)
    have m: "take (f - k) (drop k ys) = rev (take (f - k) (drop k xs))"
      using kl fl by (simp add: ys_def)
    have d: "drop f ys = drop f xs"
      using kl fl by (simp add: ys_def)
    have "subarray_reverse ys s e = take k ys @ rev (take (f - k) (drop k ys)) @ drop f ys"
      using False len by (simp add: subarray_reverse_def Let_def k_def f_def)
    also have "\<dots> = take k xs @ take (f - k) (drop k xs) @ drop f xs"
      by (simp add: t m d)
    also have "\<dots> = xs"
    proof -
      have "take (f - k) (drop k xs) @ drop f xs = drop k xs"
        using kl by (metis add_diff_inverse_nat append_take_drop_id drop_drop not_less_iff_gr_or_eq add.commute)
      then show ?thesis by simp
    qed
    finally show ?thesis using ys by simp
  qed
qed

lemma wf_buffer0: "wf_buffer store0 buffer0"
  by (simp add: wf_buffer_def store0_def buffer0_def)

lemma buffer0_simps:
  "blength buffer0 = 4" "sampleRate buffer0 = 2" "numberOfChannels buffer0 = 2"
  "getChannelData store0 buffer0 0 = [1 / 2, - 1 / 4, 1 / 8, - 1]"
  "getChannelData store0 buffer0 (Suc 0) = [0, 1 / 4, 3 / 2, - 2]"
  "length store0 = 2"
  by (simp_all add: buffer0_def store0_def numberOfChannels_def getChannelData_def)

lemma wf_buffer1: "wf_buffer store1 buffer1"
  by (simp add: wf_buffer_def store1_def buffer1_def)

lemma buffer1_simps:
  "blength buffer1 = 4" "sampleRate buffer1 = 44100" "numberOfChannels buffer1 = 1"
  "getChannelData store1 buffer1 0 = [1 / 2, - 1 / 4, 1 / 8, - 1]"
  "length store1 = 1"
  by (simp_all add: buffer1_def store1_def numberOfChannels_def getChannelData_def)

lemma wf_buffer2: "wf_buffer store2 buffer2"
  by (simp add: wf_buffer_def store2_def buffer2_def)

lemma buffer2_simps:
  "blength buffer2 = 10" "sampleRate buffer2 = 44100" "numberOfChannels buffer2 = 1"
  "getChannelData store2 buffer2 0 = [0, 1 / 16, 2 / 16, 3 / 16, 4 / 16, 5 / 16, 6 / 16, 7 / 16, 8 / 16, 9 / 16]"
  "length store2 = 1"
  by (simp_all add: buffer2_def store2_def numberOfChannels_def getChannelData_def)

section \<open>Extracting a clip\<close>

text \<open>
  The loop of \<open>sliceBuffer\<close> and of \<open>renderOfflineEffect\<close> that copies a slice of every
  channel into a buffer that was just created.
\<close>

lemma extract_loop:
  assumes wf: "wf_buffer h buffer"
      and nb: "nb = \<lparr>sampleRate = sr, blength = n,
                      channelData = [length h ..< length h + numberOfChannels buffer]\<rparr>"
      and h0: "h0 = h @ replicate (numberOfChannels buffer) (replicate n 0)"
      and h1: "h1 = fold (\<lambda>c h'. copyToChannel h' nb (ta_slice (getChannelData h' buffer c) s e) c)
                         [0 ..< numberOfChannels buffer] h0"
  shows "length h1 = length h + numberOfChannels buffer"
    and "\<forall>c<numberOfChannels buffer.
           getChannelData h1 nb c =
             take n (ta_slice (getChannelData h buffer c) s e) @
             drop (length (ta_slice (getChannelData h buffer c) s e)) (replicate n 0)"
    and "\<forall>a<length h. h1 ! a = h ! a"
proof -
  let ?nch = "numberOfChannels buffer"
  let ?dst = "\<lambda>c. channelData nb ! c"
  let ?src = "\<lambda>c. channelData buffer ! c"
  let ?body = "\<lambda>(c::nat) sd dd. take (length dd) (ta_slice sd s e) @ drop (length (ta_slice sd s e)) dd"
  let ?f = "\<lambda>c h'. copyToChannel h' nb (ta_slice (getChannelData h' buffer c) s e) c"
  have dst: "\<And>c. c < ?nch \<Longrightarrow> ?dst c = length h + c" by (simp add: nb)
  have src: "\<And>c. c < ?nch \<Longrightarrow> ?src c < length h" using wf_bufferD(4) [OF wf] .
  have a1: "\<And>i h'. i \<in> set [0 ..< ?nch] \<Longrightarrow> ?f i h' = h'[?dst i := ?body i (h' ! ?src i) (h' ! ?dst i)]"
    by (simp add: copyToChannel_def getChannelData_def Let_def)
  have "map ?dst [0 ..< ?nch] = channelData nb"
    by (rule nth_equalityI) (simp_all add: nb)
  then have a2: "distinct (map ?dst [0 ..< ?nch])" by (simp add: nb)
  have a3: "\<forall>i\<in>set [0 ..< ?nch]. ?dst i < length h0" by (simp add: dst h0)
  have a4: "\<forall>i\<in>set [0 ..< ?nch]. \<forall>j\<in>set [0 ..< ?nch]. i \<noteq> j \<longrightarrow> ?src j \<noteq> ?dst i"
    using src dst by fastforce
  note F = fold_chan_update [of "[0 ..< ?nch]" ?f ?dst ?body ?src h0, OF a1 a2 a3 a4, folded h1]
  show "length h1 = length h + ?nch" using F by (simp add: h0)
  show "\<forall>c<?nch. getChannelData h1 nb c =
             take n (ta_slice (getChannelData h buffer c) s e) @
             drop (length (ta_slice (getChannelData h buffer c) s e)) (replicate n 0)"
  proof (intro allI impI)
    fix c assume c: "c < ?nch"
    have "h1 ! ?dst c = ?body c (h0 ! ?src c) (h0 ! ?dst c)" using F c by simp
    moreover have "h0 ! ?src c = h ! ?src c" using src [OF c] by (simp add: h0 nth_append)
    moreover have "h0 ! ?dst c = replicate n 0" using c by (simp add: h0 dst nth_append)
    ultimately show "getChannelData h1 nb c =
             take n (ta_slice (getChannelData h buffer c) s e) @
             drop (length (ta_slice (getChannelData h buffer c) s e)) (replicate n 0)"
      by (simp add: getChannelData_def)
  qed
  show "\<forall>a<length h. h1 ! a = h ! a"
  proof (intro allI impI)
    fix a assume a: "a < length h"
    have "a \<notin> ?dst ` set [0 ..< ?nch]" using a dst by auto
    then have "h1 ! a = h0 ! a" using F by blast
    then show "h1 ! a = h ! a" using a by (simp add: h0 nth_append)
  qed
qed

text \<open>
  C6. For a buffer of N frames (fewer than 2^32, as every buffer of the platform has) and
  ratios 0 \<le> a < b \<le> 1, the frames s = Math.floor(a * N) and e = Math.floor(b * N) that
  the program computes, with the products rounded to doubles, are whole numbers with
  0 \<le> s and e \<le> N. When e - s \<le> 0, sliceBuffer returns null and leaves the store as it
  was; otherwise it returns a buffer whose channels are newly allocated arrays of e - s
  frames, equal to frames s, ..., e - 1 of the source channels, the arrays that existed
  before are untouched, and slicing (0, 1) gives a copy with the samples of the source.
\<close>

theorem sliceBuffer_extracts_frames:
  assumes wf: "wf_buffer h buffer" and a: "0 \<le> a" and ab: "a < b" and b: "b \<le> 1"
      and N: "blength buffer < 2 ^ 32"
  shows "\<exists>s e. floor_dbl (a * real (blength buffer)) = Fin s \<and>
               floor_dbl (b * real (blength buffer)) = Fin e \<and>
               0 \<le> s \<and> e \<le> int (blength buffer) \<and>
          (if e - s \<le> 0 then sliceBuffer h buffer a b = Inr (h, None)
           else \<exists>h' nb. sliceBuffer h buffer a b = Inr (h', Some nb) \<and>
                   wf_buffer h' nb \<and> blength nb = nat (e - s) \<and>
                   numberOfChannels nb = numberOfChannels buffer \<and>
                   sampleRate nb = sampleRate buffer \<and>
                   (\<forall>x\<in>set (channelData nb). length h \<le> x) \<and>
                   (\<forall>x<length h. h' ! x = h ! x) \<and>
                   (\<forall>c<numberOfChannels buffer.
                      getChannelData h' nb c = take (nat (e - s)) (drop (nat s) (getChannelData h buffer c))) \<and>
                   (a = 0 \<and> b = 1 \<longrightarrow>
                      (\<forall>c<numberOfChannels buffer. getChannelData h' nb c = getChannelData h buffer c)))"
proof -
  let ?N = "blength buffer"
  let ?nch = "numberOfChannels buffer"
  have Ni: "int ?N < 2 ^ 32" using N by (metis of_nat_less_numeral_power_cancel_iff)
  have N53: "int ?N < 2 ^ 53"
  proof -
    have "(2::int) ^ 32 < 2 ^ 53" by simp
    with Ni show ?thesis by linarith
  qed
  have ra: "0 \<le> a * real ?N" "a * real ?N \<le> of_int (int ?N)"
    using a ab b by (simp_all add: mult_left_le_one_le)
  have rb: "0 \<le> b * real ?N" "b * real ?N \<le> of_int (int ?N)"
    using a ab b by (simp_all add: mult_left_le_one_le)
  from floor_dbl_range [OF ra N53] obtain s where
    s: "floor_dbl (a * real ?N) = Fin s" and s0: "0 \<le> s" and sN: "s \<le> int ?N" by blast
  from floor_dbl_range [OF rb N53] obtain e where
    e: "floor_dbl (b * real ?N) = Fin e" and e0: "0 \<le> e" and eN: "e \<le> int ?N" by blast
  have body: "if e - s \<le> 0 then sliceBuffer h buffer a b = Inr (h, None)
           else \<exists>h' nb. sliceBuffer h buffer a b = Inr (h', Some nb) \<and>
                   wf_buffer h' nb \<and> blength nb = nat (e - s) \<and>
                   numberOfChannels nb = numberOfChannels buffer \<and>
                   sampleRate nb = sampleRate buffer \<and>
                   (\<forall>x\<in>set (channelData nb). length h \<le> x) \<and>
                   (\<forall>x<length h. h' ! x = h ! x) \<and>
                   (\<forall>c<numberOfChannels buffer.
                      getChannelData h' nb c = take (nat (e - s)) (drop (nat s) (getChannelData h buffer c))) \<and>
                   (a = 0 \<and> b = 1 \<longrightarrow>
                      (\<forall>c<numberOfChannels buffer. getChannelData h' nb c = getChannelData h buffer c))"
  proof (cases "e - s \<le> 0")
    case True
    hence "le0 (xsub (Fin e) (Fin s))" by (simp add: le0_xsub_Fin)
    then show ?thesis using True by (simp add: sliceBuffer_def Let_def s e)
  next
    case False
    hence se: "s \<le> e" by simp
    note fc = frame_count [OF s0 se eN N]
    define n where "n = nat (e - s)"
    have n0: "0 < n" using False by (simp add: n_def)
    have ul: "to_ulong (Fin (e - s)) = n" using False fc(2) by (simp add: to_ulong_Fin n_def)
    define nb where "nb = \<lparr>sampleRate = sampleRate buffer, blength = n,
                      channelData = [length h ..< length h + ?nch]\<rparr>"
    define h0 where "h0 = h @ replicate ?nch (replicate n (0::real))"
    define h1 where "h1 = fold (\<lambda>c h'. copyToChannel h' nb (ta_slice (getChannelData h' buffer c) (Fin s) (Fin e)) c)
                         [0 ..< ?nch] h0"
    have cb: "createBuffer h ?nch n (sampleRate buffer) = Inr (h0, nb)"
      using createBuffer_ok [OF wf_bufferD(1) [OF wf] n0] by (simp add: h0_def nb_def)
    have res: "sliceBuffer h buffer a b = Inr (h1, Some nb)"
      using False cb by (simp add: sliceBuffer_def Let_def s e fc(1) ul h1_def)
    note E = extract_loop [OF wf nb_def h0_def h1_def]
    have sl1: "ta_slice (getChannelData h buffer c) (Fin s) (Fin e) = take n (drop (nat s) (getChannelData h buffer c))"
      and sl2: "length (ta_slice (getChannelData h buffer c) (Fin s) (Fin e)) = n" if "c < ?nch" for c
    proof -
      have "e \<le> int (length (getChannelData h buffer c))"
        using eN wf_bufferD(5) [OF wf that] by simp
      from ta_slice_in_range [OF s0 se this]
      show "ta_slice (getChannelData h buffer c) (Fin s) (Fin e) = take n (drop (nat s) (getChannelData h buffer c))"
        and "length (ta_slice (getChannelData h buffer c) (Fin s) (Fin e)) = n"
        by (simp_all only: n_def)
    qed
    have chan: "\<forall>c<?nch. getChannelData h1 nb c = take n (drop (nat s) (getChannelData h buffer c))"
    proof (intro allI impI)
      fix c assume c: "c < ?nch"
      define sl where "sl = ta_slice (getChannelData h buffer c) (Fin s) (Fin e)"
      have "getChannelData h1 nb c = take n sl @ drop (length sl) (replicate n 0)"
        using E(2) c unfolding sl_def by blast
      moreover have l: "length sl = n" using sl2 [OF c] by (simp only: sl_def)
      ultimately have "getChannelData h1 nb c = sl" by simp
      then show "getChannelData h1 nb c = take n (drop (nat s) (getChannelData h buffer c))"
        using sl1 [OF c] by (simp only: sl_def)
    qed
    have wf1: "wf_buffer h1 nb"
    proof -
      have "\<And>c. c < ?nch \<Longrightarrow> length (h1 ! (length h + c)) = n"
      proof -
        fix c assume c: "c < ?nch"
        have "getChannelData h1 nb c = ta_slice (getChannelData h buffer c) (Fin s) (Fin e)"
          using chan sl1 c by simp
        then show "length (h1 ! (length h + c)) = n"
          using sl2 [OF c] c by (simp add: getChannelData_def nb_def)
      qed
      then show ?thesis
        using wf_bufferD(1) [OF wf] n0 E(1)
        by (auto simp: wf_buffer_def nb_def numberOfChannels_def list_all_length)
    qed
    have full: "a = 0 \<and> b = 1 \<longrightarrow> (\<forall>c<?nch. getChannelData h1 nb c = getChannelData h buffer c)"
    proof (intro impI allI)
      fix c assume ab1: "a = 0 \<and> b = 1" and c: "c < ?nch"
      have "floor_dbl (real_of_int 0) = Fin 0" by (rule floor_dbl_of_int) simp
      hence "s = 0" using s ab1 by simp
      moreover have "floor_dbl (real_of_int (int ?N)) = Fin (int ?N)"
        using N53 by (intro floor_dbl_of_int) simp
      hence "e = int ?N" using e ab1 by simp
      ultimately have "s = 0" "n = ?N" by (simp_all add: n_def)
      then show "getChannelData h1 nb c = getChannelData h buffer c"
        using chan c wf_bufferD(5) [OF wf c] by simp
    qed
    have "wf_buffer h1 nb \<and> blength nb = n \<and> numberOfChannels nb = ?nch \<and>
          sampleRate nb = sampleRate buffer \<and> (\<forall>x\<in>set (channelData nb). length h \<le> x) \<and>
          (\<forall>x<length h. h1 ! x = h ! x)"
      using wf1 E(3) by (simp add: nb_def numberOfChannels_def)
    then show ?thesis
      using False res chan full
      by (simp add: n_def [symmetric])
  qed
  show ?thesis
    by (rule exI [of _ s], rule exI [of _ e]) (intro conjI s e s0 eN body)
qed

text \<open>
  The doubles nearest to 0.7 and to 0.9, on a buffer of ten frames: the products round to
  7 and to 9, and the clip is frames 7 and 8.
\<close>

lemma frames_7_9:
  "floor_dbl (3152519739159347 / 4503599627370496 * 10) = Fin 7"
  "floor_dbl (8106479329266893 / 9007199254740992 * 10) = Fin 9"
proof -
  show "floor_dbl (3152519739159347 / 4503599627370496 * 10) = Fin 7"
    by (rule floor_dbl_eval [where e = 2 and m = "7 * 2 ^ 50"]) (simp_all add: rne_def)
  show "floor_dbl (8106479329266893 / 9007199254740992 * 10) = Fin 9"
    by (rule floor_dbl_eval [where e = 3 and m = "9 * 2 ^ 49"]) (simp_all add: rne_def)
qed

theorem sliceBuffer_extracts_frames_witness:
  "wf_buffer store2 buffer2 \<and> (0::real) \<le> 3152519739159347 / 4503599627370496 \<and>
   (3152519739159347 / 4503599627370496 :: real) < 8106479329266893 / 9007199254740992 \<and>
   (8106479329266893 / 9007199254740992 :: real) \<le> 1 \<and> blength buffer2 < 2 ^ 32 \<and>
   (\<exists>h' nb. sliceBuffer store2 buffer2 (3152519739159347 / 4503599627370496)
                (8106479329266893 / 9007199254740992) = Inr (h', Some nb) \<and>
      blength nb = 2 \<and>
      getChannelData h' nb 0 = [7 / 16, 8 / 16])"
proof -
  have hyps: "(0::real) \<le> 3152519739159347 / 4503599627370496"
    "(3152519739159347 / 4503599627370496 :: real) < 8106479329266893 / 9007199254740992"
    "(8106479329266893 / 9007199254740992 :: real) \<le> 1" "blength buffer2 < 2 ^ 32"
    by (simp_all add: buffer2_simps)
  from sliceBuffer_extracts_frames [OF wf_buffer2 hyps]
  obtain s e where
    s: "floor_dbl (3152519739159347 / 4503599627370496 * real (blength buffer2)) = Fin s" and
    e: "floor_dbl (8106479329266893 / 9007199254740992 * real (blength buffer2)) = Fin e" and
    r: "if e - s \<le> 0
        then sliceBuffer store2 buffer2 (3152519739159347 / 4503599627370496)
               (8106479329266893 / 9007199254740992) = Inr (store2, None)
        else \<exists>h' nb. sliceBuffer store2 buffer2 (3152519739159347 / 4503599627370496)
                        (8106479329266893 / 9007199254740992) = Inr (h', Some nb) \<and>
               wf_buffer h' nb \<and> blength nb = nat (e - s) \<and>
               numberOfChannels nb = numberOfChannels buffer2 \<and>
               sampleRate nb = sampleRate buffer2 \<and>
               (\<forall>x\<in>set (channelData nb). length store2 \<le> x) \<and>
               (\<forall>x<length store2. h' ! x = store2 ! x) \<and>
               (\<forall>c<numberOfChannels buffer2.
                  getChannelData h' nb c = take (nat (e - s)) (drop (nat s) (getChannelData store2 buffer2 c))) \<and>
               ((3152519739159347 / 4503599627370496 :: real) = 0 \<and> (8106479329266893 / 9007199254740992 :: real) = 1 \<longrightarrow>
                  (\<forall>c<numberOfChannels buffer2. getChannelData h' nb c = getChannelData store2 buffer2 c))"
    by blast
  have s7: "s = 7" using s frames_7_9(1) by (simp add: buffer2_simps)
  have e9: "e = 9" using e frames_7_9(2) by (simp add: buffer2_simps)
  from r obtain h' nb where
    r: "sliceBuffer store2 buffer2 (3152519739159347 / 4503599627370496)
                (8106479329266893 / 9007199254740992) = Inr (h', Some nb)" "blength nb = 2"
       "\<forall>c<1. getChannelData h' nb c = take 2 (drop 7 (getChannelData store2 buffer2 c))"
    unfolding s7 e9 by (auto simp: buffer2_simps)
  have "getChannelData h' nb 0 = [7 / 16, 8 / 16]"
    using r(3) by (simp add: buffer2_simps)
  then show ?thesis using r(1,2) wf_buffer2 hyps by simp
qed

section \<open>reverseRange\<close>

lemma reverseRange_once:
  assumes wf: "wf_buffer h buffer"
  shows "\<exists>h1 b1. reverseRange h buffer t0 t1 = Inr (h1, b1) \<and> wf_buffer h1 b1 \<and>
           blength b1 = blength buffer \<and> sampleRate b1 = sampleRate buffer \<and>
           numberOfChannels b1 = numberOfChannels buffer \<and>
           (\<forall>x\<in>set (channelData b1). length h \<le> x) \<and>
           (\<forall>x<length h. h1 ! x = h ! x) \<and>
           (\<forall>c<numberOfChannels buffer.
              getChannelData h1 b1 c = (if xless (floor_dbl (t0 * sampleRate buffer)) (floor_dbl (t1 * sampleRate buffer))
                 then subarray_reverse (getChannelData h buffer c) (floor_dbl (t0 * sampleRate buffer)) (floor_dbl (t1 * sampleRate buffer))
                 else getChannelData h buffer c))"
proof -
  let ?nch = "numberOfChannels buffer"
  let ?n = "blength buffer"
  let ?sr = "sampleRate buffer"
  define nb where "nb = \<lparr>sampleRate = ?sr, blength = ?n, channelData = [length h ..< length h + ?nch]\<rparr>"
  define h0 where "h0 = h @ replicate ?nch (replicate ?n (0::real))"
  let ?dst = "\<lambda>c. channelData nb ! c"
  let ?src = "\<lambda>c. channelData buffer ! c"
  let ?body = "\<lambda>(c::nat) sd dd.
      case ta_set dd sd (Fin 0) of Inl e \<Rightarrow> Inl e
      | Inr newData \<Rightarrow> Inr (if xless (floor_dbl (t0 * ?sr)) (floor_dbl (t1 * ?sr))
                              then subarray_reverse newData (floor_dbl (t0 * ?sr)) (floor_dbl (t1 * ?sr)) else newData)"
  let ?f = "\<lambda>i h'.
              case ta_set (getChannelData h' nb i) (getChannelData h' buffer i) (Fin 0) of
                Inl e \<Rightarrow> Inl e
              | Inr newData \<Rightarrow>
                  Inr (h'[channelData nb ! i :=
                            (if xless (floor_dbl (t0 * ?sr)) (floor_dbl (t1 * ?sr))
                             then subarray_reverse newData (floor_dbl (t0 * ?sr)) (floor_dbl (t1 * ?sr))
                             else newData)])"
  let ?G = "\<lambda>c. if xless (floor_dbl (t0 * ?sr)) (floor_dbl (t1 * ?sr))
                 then subarray_reverse (getChannelData h buffer c) (floor_dbl (t0 * ?sr)) (floor_dbl (t1 * ?sr))
                 else getChannelData h buffer c"
  have cb: "createBuffer h ?nch ?n ?sr = Inr (h0, nb)"
    using createBuffer_ok [OF wf_bufferD(1,2) [OF wf]] by (simp add: h0_def nb_def)
  have dst: "\<And>c. c < ?nch \<Longrightarrow> ?dst c = length h + c" by (simp add: nb_def)
  have src: "\<And>c. c < ?nch \<Longrightarrow> ?src c < length h" using wf_bufferD(4) [OF wf] .
  have a1: "\<And>i h'. i \<in> set [0 ..< ?nch] \<Longrightarrow>
              ?f i h' = (case ?body i (h' ! ?src i) (h' ! ?dst i) of
                           Inl e \<Rightarrow> Inl e | Inr v \<Rightarrow> Inr (h'[?dst i := v]))"
    by (simp add: getChannelData_def split: sum.splits)
  have "map ?dst [0 ..< ?nch] = channelData nb"
    by (rule nth_equalityI) (simp_all add: nb_def)
  then have a2: "distinct (map ?dst [0 ..< ?nch])" by (simp add: nb_def)
  have a3: "\<forall>i\<in>set [0 ..< ?nch]. ?dst i < length h0" by (simp add: dst h0_def)
  have a4: "\<forall>i\<in>set [0 ..< ?nch]. \<forall>j\<in>set [0 ..< ?nch]. i \<noteq> j \<longrightarrow> ?src j \<noteq> ?dst i"
    using src dst by fastforce
  have a5: "\<forall>i\<in>set [0 ..< ?nch]. ?body i (h0 ! ?src i) (h0 ! ?dst i) = Inr (?G i)"
  proof
    fix c assume "c \<in> set [0 ..< ?nch]"
    then have c: "c < ?nch" by simp
    have s: "h0 ! ?src c = getChannelData h buffer c"
      using src [OF c] by (simp add: h0_def nth_append getChannelData_def)
    have d: "h0 ! ?dst c = replicate ?n 0" using c by (simp add: h0_def dst nth_append)
    have "ta_set (replicate ?n 0) (getChannelData h buffer c) (Fin 0) = Inr (getChannelData h buffer c)"
      using wf_bufferD(5) [OF wf c] by (simp add: ta_set_def)
    then show "?body c (h0 ! ?src c) (h0 ! ?dst c) = Inr (?G c)"
      by (simp add: s d)
  qed
  from foldE_chan_update [where f = ?f and body = ?body and src = ?src and dst = ?dst and G = ?G,
      OF a1 a2 a3 a4 a5]
  obtain h1 where h1: "foldE ?f [0 ..< ?nch] h0 = Inr h1" "length h1 = length h0"
      "\<forall>i\<in>set [0 ..< ?nch]. h1 ! ?dst i = ?G i"
      "\<forall>a. a \<notin> ?dst ` set [0 ..< ?nch] \<longrightarrow> h1 ! a = h0 ! a"
    by blast
  have res: "reverseRange h buffer t0 t1 = Inr (h1, nb)"
    using cb h1(1) by (simp add: reverseRange_def Let_def)
  have chan: "\<forall>c<?nch. getChannelData h1 nb c = ?G c"
    using h1(3) by (simp add: getChannelData_def)
  have keep: "\<forall>x<length h. h1 ! x = h ! x"
  proof (intro allI impI)
    fix a assume a: "a < length h"
    have "a \<notin> ?dst ` set [0 ..< ?nch]" using a dst by auto
    then have "h1 ! a = h0 ! a" using h1(4) by blast
    then show "h1 ! a = h ! a" using a by (simp add: h0_def nth_append)
  qed
  have wf1: "wf_buffer h1 nb"
  proof -
    have "\<And>c. c < ?nch \<Longrightarrow> length (h1 ! (length h + c)) = ?n"
    proof -
      fix c assume c: "c < ?nch"
      have "h1 ! (length h + c) = ?G c" using chan c by (simp add: getChannelData_def nb_def)
      then show "length (h1 ! (length h + c)) = ?n" using wf_bufferD(5) [OF wf c] by simp
    qed
    then show ?thesis
      using wf_bufferD(1,2) [OF wf] h1(2)
      by (auto simp: wf_buffer_def nb_def numberOfChannels_def list_all_length h0_def)
  qed
  have "blength nb = ?n \<and> sampleRate nb = ?sr \<and> numberOfChannels nb = ?nch \<and>
        (\<forall>x\<in>set (channelData nb). length h \<le> x)"
    by (simp add: nb_def numberOfChannels_def)
  then show ?thesis using res wf1 keep chan by blast
qed

lemma subarray_reverse_in_range:
  assumes "0 \<le> s" "s < e" "e \<le> int (length xs)"
  shows "subarray_reverse xs (Fin s) (Fin e) =
           take (nat s) xs @ rev (take (nat (e - s)) (drop (nat s) xs)) @ drop (nat e) xs"
proof -
  have "rel_index (length xs) (Fin s) = nat s" "rel_index (length xs) (Fin e) = nat e"
    using assms by (simp_all add: rel_index_nonneg)
  moreover have "nat e - nat s = nat (e - s)" "\<not> nat e \<le> nat s" using assms by linarith+
  ultimately show ?thesis by (simp add: subarray_reverse_def Let_def)
qed

text \<open>
  C7. reverseRange returns a new buffer whose channels are newly allocated copies of the
  source channels with the frames of the range in reverse order, each channel on its own,
  and leaves every array that existed before untouched; applied a second time, with the
  same times, to its own result, it gives a buffer with the samples of the original. When
  the frames that the program computes, s = Math.floor(t0 * sampleRate) and
  e = Math.floor(t1 * sampleRate) with the products rounded to doubles, are a range within
  the buffer, 0 \<le> s < e \<le> length, the reversed frames are exactly s, ..., e - 1.
\<close>

theorem reverseRange_involution:
  assumes wf: "wf_buffer h buffer"
  shows "\<exists>h1 b1 h2 b2.
           reverseRange h buffer t0 t1 = Inr (h1, b1) \<and>
           reverseRange h1 b1 t0 t1 = Inr (h2, b2) \<and>
           blength b2 = blength buffer \<and> numberOfChannels b2 = numberOfChannels buffer \<and>
           (\<forall>c<numberOfChannels buffer. getChannelData h2 b2 c = getChannelData h buffer c) \<and>
           (\<forall>x\<in>set (channelData b1). length h \<le> x) \<and>
           (\<forall>x<length h. h1 ! x = h ! x \<and> h2 ! x = h ! x) \<and>
           (\<forall>s e. floor_dbl (t0 * sampleRate buffer) = Fin s \<and>
                  floor_dbl (t1 * sampleRate buffer) = Fin e \<and>
                  0 \<le> s \<and> s < e \<and> e \<le> int (blength buffer) \<longrightarrow>
               (\<forall>c<numberOfChannels buffer.
                  getChannelData h1 b1 c =
                    take (nat s) (getChannelData h buffer c) @
                    rev (take (nat (e - s)) (drop (nat s) (getChannelData h buffer c))) @
                    drop (nat e) (getChannelData h buffer c)))"
proof -
  let ?nch = "numberOfChannels buffer"
  let ?s = "floor_dbl (t0 * sampleRate buffer)"
  let ?e = "floor_dbl (t1 * sampleRate buffer)"
  from reverseRange_once [OF wf, of t0 t1] obtain h1 b1 where
    r1: "reverseRange h buffer t0 t1 = Inr (h1, b1)" and wf1: "wf_buffer h1 b1"
    and sh1: "blength b1 = blength buffer" "sampleRate b1 = sampleRate buffer"
             "numberOfChannels b1 = ?nch"
    and fresh1: "\<forall>x\<in>set (channelData b1). length h \<le> x"
    and keep1: "\<forall>x<length h. h1 ! x = h ! x"
    and chan1: "\<forall>c<?nch. getChannelData h1 b1 c =
                  (if xless ?s ?e then subarray_reverse (getChannelData h buffer c) ?s ?e
                   else getChannelData h buffer c)"
    by blast
  from reverseRange_once [OF wf1, of t0 t1] obtain h2 b2 where
    r2: "reverseRange h1 b1 t0 t1 = Inr (h2, b2)"
    and sh2: "blength b2 = blength b1" "numberOfChannels b2 = numberOfChannels b1"
    and keep2: "\<forall>x<length h1. h2 ! x = h1 ! x"
    and chan2: "\<forall>c<numberOfChannels b1. getChannelData h2 b2 c =
                  (if xless (floor_dbl (t0 * sampleRate b1)) (floor_dbl (t1 * sampleRate b1))
                   then subarray_reverse (getChannelData h1 b1 c)
                          (floor_dbl (t0 * sampleRate b1)) (floor_dbl (t1 * sampleRate b1))
                   else getChannelData h1 b1 c)"
    by blast
  have twice: "\<forall>c<?nch. getChannelData h2 b2 c = getChannelData h buffer c"
    using chan1 chan2 sh1 by (simp add: subarray_reverse_twice)
  have len1: "length h \<le> length h1"
  proof -
    have "channelData b1 ! 0 < length h1" "channelData b1 ! 0 \<in> set (channelData b1)"
      using wf_bufferD(1,4) [OF wf1] by (simp_all add: numberOfChannels_def)
    then show ?thesis using fresh1 by fastforce
  qed
  have keep: "\<forall>x<length h. h1 ! x = h ! x \<and> h2 ! x = h ! x"
    using keep1 keep2 len1 by auto
  have once: "\<forall>s e. ?s = Fin s \<and> ?e = Fin e \<and> 0 \<le> s \<and> s < e \<and> e \<le> int (blength buffer) \<longrightarrow>
               (\<forall>c<?nch. getChannelData h1 b1 c =
                    take (nat s) (getChannelData h buffer c) @
                    rev (take (nat (e - s)) (drop (nat s) (getChannelData h buffer c))) @
                    drop (nat e) (getChannelData h buffer c))"
  proof (intro impI allI)
    fix s e c
    assume r: "?s = Fin s \<and> ?e = Fin e \<and> 0 \<le> s \<and> s < e \<and> e \<le> int (blength buffer)"
       and c: "c < ?nch"
    have "e \<le> int (length (getChannelData h buffer c))"
      using r wf_bufferD(5) [OF wf c] by simp
    then show "getChannelData h1 b1 c =
                    take (nat s) (getChannelData h buffer c) @
                    rev (take (nat (e - s)) (drop (nat s) (getChannelData h buffer c))) @
                    drop (nat e) (getChannelData h buffer c)"
      using chan1 c r subarray_reverse_in_range [of s e "getChannelData h buffer c"] by simp
  qed
  have sh: "blength b2 = blength buffer" "numberOfChannels b2 = ?nch"
    using sh1 sh2 by simp_all
  show ?thesis
    by (rule exI [of _ h1], rule exI [of _ b1], rule exI [of _ h2], rule exI [of _ b2])
       (intro conjI r1 r2 sh twice fresh1 keep once)
qed

text \<open>At 44100 Hz the times 1/32768 s and 3/32768 s are the frames 1 and 4.\<close>

lemma frames_1_4:
  "floor_dbl (1 / 32768 * 44100) = Fin 1"
  "floor_dbl (3 / 32768 * 44100) = Fin 4"
proof -
  show "floor_dbl (1 / 32768 * 44100) = Fin 1"
    by (rule floor_dbl_eval [where e = 0 and m = "44100 * 2 ^ 37"]) (simp_all add: rne_def)
  show "floor_dbl (3 / 32768 * 44100) = Fin 4"
    by (rule floor_dbl_eval [where e = 2 and m = "132300 * 2 ^ 35"]) (simp_all add: rne_def)
qed

theorem reverseRange_involution_witness:
  "wf_buffer store1 buffer1 \<and>
   (\<exists>h1 b1 h2 b2.
      reverseRange store1 buffer1 (1 / 32768) (3 / 32768) = Inr (h1, b1) \<and>
      reverseRange h1 b1 (1 / 32768) (3 / 32768) = Inr (h2, b2) \<and>
      getChannelData h1 b1 0 = [1 / 2, - 1, 1 / 8, - 1 / 4] \<and>
      getChannelData h2 b2 0 = [1 / 2, - 1 / 4, 1 / 8, - 1] \<and>
      h1 ! 0 = store1 ! 0 \<and> h2 ! 0 = store1 ! 0)"
proof -
  from reverseRange_involution [OF wf_buffer1, of "1 / 32768" "3 / 32768"]
  obtain h1 b1 h2 b2 where
    r: "reverseRange store1 buffer1 (1 / 32768) (3 / 32768) = Inr (h1, b1)"
       "reverseRange h1 b1 (1 / 32768) (3 / 32768) = Inr (h2, b2)"
       "\<forall>c<numberOfChannels buffer1. getChannelData h2 b2 c = getChannelData store1 buffer1 c"
       "\<forall>x<length store1. h1 ! x = store1 ! x \<and> h2 ! x = store1 ! x"
       "\<forall>s e. floor_dbl (1 / 32768 * sampleRate buffer1) = Fin s \<and>
              floor_dbl (3 / 32768 * sampleRate buffer1) = Fin e \<and>
              0 \<le> s \<and> s < e \<and> e \<le> int (blength buffer1) \<longrightarrow>
           (\<forall>c<numberOfChannels buffer1.
              getChannelData h1 b1 c =
                take (nat s) (getChannelData store1 buffer1 c) @
                rev (take (nat (e - s)) (drop (nat s) (getChannelData store1 buffer1 c))) @
                drop (nat e) (getChannelData store1 buffer1 c))"
    by blast
  have fr: "floor_dbl (1 / 32768 * sampleRate buffer1) = Fin 1"
           "floor_dbl (3 / 32768 * sampleRate buffer1) = Fin 4"
    unfolding buffer1_simps by (rule frames_1_4)+
  have "getChannelData h1 b1 0 =
          take (nat 1) (getChannelData store1 buffer1 0) @
          rev (take (nat (4 - 1)) (drop (nat 1) (getChannelData store1 buffer1 0))) @
          drop (nat 4) (getChannelData store1 buffer1 0)"
    using r(5) fr by (simp add: buffer1_simps)
  hence "getChannelData h1 b1 0 = [1 / 2, - 1, 1 / 8, - 1 / 4]"
    by (simp add: buffer1_simps)
  moreover have "getChannelData h2 b2 0 = [1 / 2, - 1 / 4, 1 / 8, - 1]"
    using r(3) by (simp add: buffer1_simps)
  moreover have "h1 ! 0 = store1 ! 0 \<and> h2 ! 0 = store1 ! 0" using r(4) by (simp add: buffer1_simps)
  ultimately show ?thesis using r(1,2) wf_buffer1 by blast
qed

section \<open>The bitcrusher\<close>

declare bitcrush_loop.simps [simp del]

lemma length_bitcrush_loop:
  "bitcrush_loop steps nf len i lastSample data = Some out \<Longrightarrow> length out = length data"
proof (induction steps nf len i lastSample data rule: bitcrush_loop.induct)
  case (1 steps nf len i lastSample data)
  show ?case
  proof (cases "i < len")
    case False
    then show ?thesis using "1.prems" by (subst (asm) bitcrush_loop.simps) simp
  next
    case True
    show ?thesis
    proof (cases "on_step nf i")
      case on: True
      from "1.prems" True on obtain sample where
        q: "quantize steps (data ! i) = Some sample" and
        r: "bitcrush_loop steps nf len (Suc i) sample (data[i := sample]) = Some out"
        by (subst (asm) bitcrush_loop.simps) (auto split: option.splits)
      from "1.IH"(1) [OF True on q r] show ?thesis by simp
    next
      case off: False
      from "1.prems" True off have
        r: "bitcrush_loop steps nf len (Suc i) lastSample (data[i := lastSample]) = Some out"
        by (subst (asm) bitcrush_loop.simps) simp
      from "1.IH"(2) [OF True off r] show ?thesis by simp
    qed
  qed
qed

text \<open>The bitcrusher writes into the channels of its buffer only, and keeps their lengths.\<close>

lemma applyMathBitcrush_frame:
  assumes "applyMathBitcrush h buffer bts nf = Some h'"
  shows "length h' = length h" and "\<forall>a. length (h' ! a) = length (h ! a)"
    and "\<forall>a. a \<notin> set (channelData buffer) \<longrightarrow> h' ! a = h ! a"
proof -
  let ?nch = "numberOfChannels buffer"
  let ?P = "\<lambda>t. length t = length h \<and> (\<forall>a. length (t ! a) = length (h ! a)) \<and>
                 (\<forall>a. a \<notin> set (channelData buffer) \<longrightarrow> t ! a = h ! a)"
  let ?f = "\<lambda>c h'. case bitcrush_loop (bit_steps bts) nf (blength buffer) 0 0 (getChannelData h' buffer c) of
                      None \<Rightarrow> None
                    | Some data \<Rightarrow> Some (h'[channelData buffer ! c := data])"
  have R: "foldO ?f [0 ..< ?nch] h = Some h'"
    using assms by (simp add: applyMathBitcrush_def Let_def)
  have step: "?P t'" if x: "x \<in> set [0 ..< ?nch]" and t: "?P t" and f: "?f x t = Some t'" for x t t'
  proof -
    let ?d = "channelData buffer ! x"
    from f obtain data where
      d: "bitcrush_loop (bit_steps bts) nf (blength buffer) 0 0 (t ! ?d) = Some data"
      and t': "t' = t[?d := data]"
      by (auto simp: getChannelData_def split: option.splits)
    have ld: "length data = length (t ! ?d)" using length_bitcrush_loop [OF d] .
    have mem: "?d \<in> set (channelData buffer)" using x by (simp add: numberOfChannels_def)
    have "length (t' ! a) = length (h ! a)" for a
    proof (cases "a = ?d \<and> ?d < length t")
      case True
      then show ?thesis using t ld by (simp add: t')
    next
      case False
      then have "t' ! a = t ! a"
        by (cases "?d < length t") (auto simp: t' list_update_beyond)
      then show ?thesis using t by simp
    qed
    moreover have "t' ! a = h ! a" if "a \<notin> set (channelData buffer)" for a
    proof -
      have "a \<noteq> ?d" using that mem by auto
      then show ?thesis using t that by (simp add: t')
    qed
    ultimately show ?thesis using t by (simp add: t')
  qed
  have "?P h'"
    by (rule foldO_invariant [where P = ?P, OF R]) (simp, rule step)
  then show "length h' = length h" and "\<forall>a. length (h' ! a) = length (h ! a)"
    and "\<forall>a. a \<notin> set (channelData buffer) \<longrightarrow> h' ! a = h ! a"
    by blast+
qed

lemma floor_multiple:
  fixes S i j :: nat
  assumes "0 < S" "i mod S = 0" "i \<le> j"
  shows "i \<le> j - j mod S"
proof -
  have "S dvd i" using assms(2) by (simp add: mod_0_imp_dvd)
  then obtain m where m: "i = m * S" by (auto simp: dvd_def mult.commute)
  have "m \<le> j div S" using assms(1,3) m by (simp add: less_eq_div_iff_mult_less_eq)
  then have "m * S \<le> (j div S) * S" by simp
  also have "\<dots> = j - j mod S" by (simp add: minus_mod_eq_div_mult)
  finally show ?thesis using m by simp
qed

text \<open>
  The loop over one channel, when the frames that are sampled are the multiples of \<open>S\<close> and
  every sample from frame \<open>i\<close> on quantizes to a number: frame \<open>j\<close> holds the quantized
  sample of the last multiple of \<open>S\<close> up to \<open>j\<close>.
\<close>

lemma bitcrush_loop_nth:
  assumes S: "0 < S"
  shows "\<forall>k<len. on_step nf k \<longleftrightarrow> k mod S = 0 \<Longrightarrow> len \<le> length data \<Longrightarrow>
         \<forall>k. i \<le> k \<and> k < len \<longrightarrow> quantize steps (data ! k) = Some (Q (data ! k)) \<Longrightarrow>
         \<exists>out. bitcrush_loop steps nf len i lastSample data = Some out \<and> length out = length data \<and>
           (\<forall>j<len. out ! j =
              (if j < i then data ! j
               else if i \<le> j - j mod S then Q (data ! (j - j mod S))
               else lastSample))"
proof (induction steps nf len i lastSample data rule: bitcrush_loop.induct)
  case (1 steps nf len i lastSample data)
  note st = "1.prems"(1) and ld = "1.prems"(2) and qz = "1.prems"(3)
  show ?case
  proof (cases "i < len")
    case False
    then have "bitcrush_loop steps nf len i lastSample data = Some data"
      by (subst bitcrush_loop.simps) simp
    then show ?thesis using False by simp
  next
    case True
    have step: "on_step nf i \<longleftrightarrow> i mod S = 0" using st True by simp
    have qi: "quantize steps (data ! i) = Some (Q (data ! i))" using qz True by simp
    define l' where "l' = (if on_step nf i then Q (data ! i) else lastSample)"
    define d' where "d' = data[i := l']"
    have unf: "bitcrush_loop steps nf len i lastSample data = bitcrush_loop steps nf len (Suc i) l' d'"
      using True qi by (subst bitcrush_loop.simps) (simp add: l'_def d'_def)
    have ld': "len \<le> length d'" using ld by (simp add: d'_def)
    have qz': "\<forall>k. Suc i \<le> k \<and> k < len \<longrightarrow> quantize steps (d' ! k) = Some (Q (d' ! k))"
      using qz by (simp add: d'_def)
    have "\<exists>out. bitcrush_loop steps nf len (Suc i) l' d' = Some out \<and> length out = length d' \<and>
           (\<forall>j<len. out ! j =
              (if j < Suc i then d' ! j
               else if Suc i \<le> j - j mod S then Q (d' ! (j - j mod S))
               else l'))"
    proof (cases "on_step nf i")
      case on: True
      have l: "l' = Q (data ! i)" using on by (simp add: l'_def)
      show ?thesis
        using "1.IH"(1) [OF True on qi st] ld' qz' unfolding d'_def l
        by blast
    next
      case off: False
      have l: "l' = lastSample" using off by (simp add: l'_def)
      show ?thesis
        using "1.IH"(2) [OF True off st] ld' qz' unfolding d'_def l
        by blast
    qed
    then obtain out where
      o1: "bitcrush_loop steps nf len (Suc i) l' d' = Some out" and o2: "length out = length d'"
      and IH: "\<forall>j<len. out ! j =
              (if j < Suc i then d' ! j
               else if Suc i \<le> j - j mod S then Q (d' ! (j - j mod S))
               else l')"
      by blast
    have val: "out ! j =
              (if j < i then data ! j
               else if i \<le> j - j mod S then Q (data ! (j - j mod S))
               else lastSample)" if j: "j < len" for j
    proof -
      let ?b = "j - j mod S"
      have IHj: "out ! j = (if j < Suc i then d' ! j
               else if Suc i \<le> ?b then Q (d' ! ?b) else l')"
        using IH j by blast
      have bmod: "?b mod S = 0" by (simp add: minus_mod_eq_div_mult)
      consider "j < i" | "j = i" | "i < j" by linarith
      then show ?thesis
      proof cases
        case 1
        then show ?thesis using IHj by (simp add: d'_def)
      next
        case 2
        have "i < length data" using True ld by simp
        then have "d' ! i = l'" by (simp add: d'_def)
        moreover have "i \<le> i - i mod S \<longleftrightarrow> i mod S = 0"
          by (metis diff_diff_cancel diff_le_self diff_self_eq_0 diff_zero le_antisym mod_less_eq_dividend)
        ultimately show ?thesis using IHj 2 by (simp add: l'_def step)
      next
        case 3
        show ?thesis
        proof (cases "Suc i \<le> ?b")
          case True
          then have "d' ! ?b = data ! ?b" by (simp add: d'_def)
          then show ?thesis using IHj 3 True by simp
        next
          case nb: False
          show ?thesis
          proof (cases "?b = i")
            case True
            then have "i mod S = 0" using bmod by simp
            then show ?thesis using IHj 3 nb True by (simp add: l'_def step)
          next
            case False
            then have lt: "?b < i" using nb by simp
            have "i mod S \<noteq> 0"
            proof
              assume "i mod S = 0"
              then have "i \<le> ?b" using floor_multiple [OF S] 3 by simp
              then show False using lt by simp
            qed
            then show ?thesis using IHj 3 nb lt by (simp add: l'_def step)
          qed
        qed
      qed
    qed
    have lo: "length out = length data" using o2 by (simp add: d'_def)
    have "bitcrush_loop steps nf len i lastSample data = Some out" using unf o1 by simp
    moreover have "\<forall>j<len. out ! j =
              (if j < i then data ! j
               else if i \<le> j - j mod S then Q (data ! (j - j mod S))
               else lastSample)"
      using val by blast
    ultimately show ?thesis using lo by blast
  qed
qed

lemma applyMathBitcrush_channels:
  assumes wf: "wf_buffer h buffer"
      and G: "\<forall>c<numberOfChannels buffer.
                bitcrush_loop (bit_steps bts) nf (blength buffer) 0 0 (getChannelData h buffer c) = Some (G c)"
  shows "\<exists>h'. applyMathBitcrush h buffer bts nf = Some h' \<and> length h' = length h \<and>
           (\<forall>c<numberOfChannels buffer. getChannelData h' buffer c = G c) \<and>
           (\<forall>a. a \<notin> set (channelData buffer) \<longrightarrow> h' ! a = h ! a)"
proof -
  let ?nch = "numberOfChannels buffer"
  let ?ad = "\<lambda>c. channelData buffer ! c"
  let ?body = "\<lambda>(c::nat) (sd::real list) dd.
                 bitcrush_loop (bit_steps bts) nf (blength buffer) 0 0 dd"
  let ?f = "\<lambda>c h'. case bitcrush_loop (bit_steps bts) nf (blength buffer) 0 0 (getChannelData h' buffer c) of
                      None \<Rightarrow> None
                    | Some data \<Rightarrow> Some (h'[channelData buffer ! c := data])"
  have R: "applyMathBitcrush h buffer bts nf = foldO ?f [0 ..< ?nch] h"
    by (simp add: applyMathBitcrush_def Let_def)
  have a1: "\<And>i h'. i \<in> set [0 ..< ?nch] \<Longrightarrow>
              ?f i h' = (case ?body i (h' ! ?ad i) (h' ! ?ad i) of
                           None \<Rightarrow> None | Some v \<Rightarrow> Some (h'[?ad i := v]))"
    by (simp add: getChannelData_def)
  have m: "map ?ad [0 ..< ?nch] = channelData buffer"
    by (rule nth_equalityI) (simp_all add: numberOfChannels_def)
  have a2: "distinct (map ?ad [0 ..< ?nch])" using m wf_bufferD(3) [OF wf] by simp
  have a3: "\<forall>i\<in>set [0 ..< ?nch]. ?ad i < length h" using wf_bufferD(4) [OF wf] by simp
  have a4: "\<forall>i\<in>set [0 ..< ?nch]. \<forall>j\<in>set [0 ..< ?nch]. i \<noteq> j \<longrightarrow> ?ad j \<noteq> ?ad i"
    using wf_bufferD(3) [OF wf] by (simp add: nth_eq_iff_index_eq numberOfChannels_def)
  have a5: "\<forall>i\<in>set [0 ..< ?nch]. ?body i (h ! ?ad i) (h ! ?ad i) = Some (G i)"
    using G by (simp add: getChannelData_def)
  from foldO_chan_update [where f = ?f and dst = ?ad and src = ?ad and body = ?body and G = G,
      OF a1 a2 a3 a4 a5]
  obtain h' where h': "foldO ?f [0 ..< ?nch] h = Some h'" "length h' = length h"
      "\<forall>i\<in>set [0 ..< ?nch]. h' ! ?ad i = G i"
      "\<forall>a. a \<notin> ?ad ` set [0 ..< ?nch] \<longrightarrow> h' ! a = h ! a"
    by blast
  have img: "?ad ` set [0 ..< ?nch] = set (channelData buffer)"
    using m by (metis set_map)
  have "applyMathBitcrush h buffer bts nf = Some h'" using R h'(1) by simp
  moreover have "\<forall>c<?nch. getChannelData h' buffer c = G c"
    using h'(3) by (simp add: getChannelData_def)
  moreover have "\<forall>a. a \<notin> set (channelData buffer) \<longrightarrow> h' ! a = h ! a"
    using h'(4) img by simp
  ultimately show ?thesis using h'(2) by blast
qed

text \<open>For \<open>normFreq\<close> in (0, 1] the step is a whole number from one on, or an infinity.\<close>

lemma step_size_cases:
  assumes "0 < nf" "nf \<le> 1"
  shows "step_size nf = PInf \<or> (\<exists>S. step_size nf = Fin S \<and> 1 \<le> S)"
proof -
  have "1 \<le> 1 / nf" using assms by simp
  hence one: "1 \<le> fl (1 / nf)" by (rule fl_ge_one)
  hence "1 \<le> \<lfloor>fl (1 / nf)\<rfloor>" by linarith
  moreover have "0 < 1 / nf" using assms by simp
  ultimately show ?thesis using assms(1) by (simp add: step_size_def floor_dbl_def)
qed

lemma on_step_Fin:
  assumes "step_size nf = Fin S" "1 \<le> S"
  shows "on_step nf k \<longleftrightarrow> k mod nat S = 0"
proof -
  have "int k mod int (nat S) = int (k mod nat S)" by (simp add: zmod_int)
  then have "int k mod \<bar>S\<bar> = 0 \<longleftrightarrow> k mod nat S = 0" using assms(2) by simp
  then show ?thesis using assms by (simp add: on_step_def)
qed

lemma on_step_PInf: "step_size nf = PInf \<Longrightarrow> on_step nf k \<longleftrightarrow> k = 0"
  by (simp add: on_step_def)

text \<open>Whole bits between -1024 and 1024, and a sample within the ranges: the quantized sample.\<close>

lemma quantize_ok:
  assumes b: "- 1024 < b" "b < 1024"
      and r1: "\<bar>x\<bar> * 2 powi b < 2 ^ 1024"
      and r2: "\<bar>x\<bar> + 2 powi (- b) / 2 < 2 ^ 128 - 2 ^ 103"
  shows "quantize (bit_steps (real_of_int b)) x =
           Some (real_of_int (js_round (x * 2 powi b)) / 2 powi b)"
proof -
  define p :: real where "p = 2 powi b"
  have p0: "0 < p" by (simp add: p_def)
  have pw: "2 powr real_of_int b = p" by (simp add: powr_real_of_int' p_def)
  have bs: "bit_steps (real_of_int b) = Some (1 / p, p)"
    using b by (simp add: bit_steps_def pw)
  have g1: "\<not> 2 ^ 1024 \<le> \<bar>x * p\<bar>" using r1 p0 by (simp add: abs_mult p_def)
  define k where "k = js_round (x * p)"
  have "\<bar>real_of_int k\<bar> \<le> \<bar>x * p\<bar> + 1 / 2"
    unfolding k_def js_round_def by linarith
  hence "\<bar>real_of_int k\<bar> / p \<le> (\<bar>x * p\<bar> + 1 / 2) / p"
    using p0 by (simp add: divide_right_mono)
  also have "(\<bar>x * p\<bar> + 1 / 2) / p = \<bar>x\<bar> + (1 / p) / 2"
    using p0 by (simp add: abs_mult field_simps)
  also have "1 / p = 2 powi (- b)" by (simp add: p_def power_int_minus field_simps)
  finally have "\<bar>real_of_int k\<bar> / p < 2 ^ 128 - 2 ^ 103" using r2 by simp
  hence g2: "\<not> 2 ^ 128 - 2 ^ 103 \<le> \<bar>real_of_int k * (1 / p)\<bar>"
    using p0 by (simp add: abs_mult)
  show ?thesis
    unfolding p_def [symmetric] bs quantize_def using g1 g2
    by (simp add: Let_def k_def)
qed


text \<open>
  C2. For whole bits b with -1024 < b < 1024, normFreq in (0, 1], and samples s small
  enough that s 2^b stays in the range of a double and the quantized sample in the range
  of a 32-bit float: the bitcrusher returns, overwrites each channel of the buffer from
  that channel alone and touches no other array. The step S = Math.floor(1 / normFreq),
  with the quotient rounded to a double, is a whole number from one on or an infinity.
  For a whole step, frame i of a channel becomes round(s 2^b) / 2^b, where s is the sample
  of the same channel at the last frame before or at i that is a multiple of S and round
  is Math.round, so every output sample lies on the grid of the multiples of 1 / 2^b; and
  the value at a frame that is a multiple of S is kept for the S - 1 frames that follow,
  as far as the channel goes. For an infinite step every frame holds the quantized first
  sample of its channel.
\<close>

theorem applyMathBitcrush_quantize_hold:
  assumes wf: "wf_buffer h buffer" and nf: "0 < nfreq" "nfreq \<le> 1"
      and b: "- 1024 < b" "b < 1024"
      and rng: "\<forall>c<numberOfChannels buffer. \<forall>i<blength buffer.
                  \<bar>getChannelData h buffer c ! i\<bar> * 2 powi b < 2 ^ 1024 \<and>
                  \<bar>getChannelData h buffer c ! i\<bar> + 2 powi (- b) / 2 < 2 ^ 128 - 2 ^ 103"
  shows "\<exists>h'. applyMathBitcrush h buffer (real_of_int b) nfreq = Some h' \<and> length h' = length h \<and>
           (\<forall>a<length h. a \<in> set (channelData buffer) \<or> h' ! a = h ! a) \<and>
           (\<forall>c<numberOfChannels buffer. length (getChannelData h' buffer c) = blength buffer) \<and>
           (case step_size nfreq of
              Fin S \<Rightarrow> 1 \<le> S \<and>
                (\<forall>c<numberOfChannels buffer.
                   (\<forall>i<blength buffer.
                      getChannelData h' buffer c ! i =
                        real_of_int (js_round (getChannelData h buffer c ! (i - i mod nat S) * 2 powi b)) / 2 powi b) \<and>
                   (\<forall>i<blength buffer. i mod nat S = 0 \<longrightarrow>
                      (\<forall>j<nat S. i + j < blength buffer \<longrightarrow>
                         getChannelData h' buffer c ! (i + j) = getChannelData h' buffer c ! i)))
            | PInf \<Rightarrow>
                (\<forall>c<numberOfChannels buffer. \<forall>i<blength buffer.
                   getChannelData h' buffer c ! i =
                     real_of_int (js_round (getChannelData h buffer c ! 0 * 2 powi b)) / 2 powi b)
            | _ \<Rightarrow> False)"
proof -
  let ?nch = "numberOfChannels buffer"
  let ?n = "blength buffer"
  let ?Q = "\<lambda>x. real_of_int (js_round (x * 2 powi b)) / 2 powi b"
  define T where "T = (case step_size nfreq of Fin S \<Rightarrow> nat S | _ \<Rightarrow> ?n)"
  have n0: "0 < ?n" using wf_bufferD(2) [OF wf] .
  have T0: "0 < T" and st: "\<forall>k<?n. on_step nfreq k \<longleftrightarrow> k mod T = 0"
  proof -
    from step_size_cases [OF nf] show "0 < T"
      using n0 by (auto simp: T_def)
    from step_size_cases [OF nf] show "\<forall>k<?n. on_step nfreq k \<longleftrightarrow> k mod T = 0"
    proof
      assume p: "step_size nfreq = PInf"
      then show ?thesis by (simp add: T_def on_step_PInf)
    next
      assume "\<exists>S. step_size nfreq = Fin S \<and> 1 \<le> S"
      then obtain S where S: "step_size nfreq = Fin S" "1 \<le> S" by blast
      then show ?thesis using on_step_Fin [OF S] by (simp add: T_def)
    qed
  qed
  have each: "\<exists>out. c < ?nch \<longrightarrow>
                bitcrush_loop (bit_steps (real_of_int b)) nfreq ?n 0 0 (getChannelData h buffer c) = Some out \<and>
                length out = ?n \<and>
                (\<forall>j<?n. out ! j = ?Q (getChannelData h buffer c ! (j - j mod T)))" for c
  proof (cases "c < ?nch")
    case False
    then show ?thesis by simp
  next
    case c: True
    let ?in = "getChannelData h buffer c"
    have len: "length ?in = ?n" using wf_bufferD(5) [OF wf c] .
    have ll: "?n \<le> length ?in" using len by simp
    have qz: "\<forall>k. 0 \<le> k \<and> k < ?n \<longrightarrow> quantize (bit_steps (real_of_int b)) (?in ! k) = Some (?Q (?in ! k))"
    proof (intro allI impI)
      fix k assume k: "0 \<le> k \<and> k < ?n"
      have "\<bar>?in ! k\<bar> * 2 powi b < 2 ^ 1024" "\<bar>?in ! k\<bar> + 2 powi (- b) / 2 < 2 ^ 128 - 2 ^ 103"
        using rng c k by blast+
      from quantize_ok [OF b this]
      show "quantize (bit_steps (real_of_int b)) (?in ! k) = Some (?Q (?in ! k))" .
    qed
    from bitcrush_loop_nth [OF T0 st ll qz, of 0]
    obtain out where
      o: "bitcrush_loop (bit_steps (real_of_int b)) nfreq ?n 0 0 ?in = Some out" "length out = length ?in"
         "\<forall>j<?n. out ! j = (if j < 0 then ?in ! j else if 0 \<le> j - j mod T then ?Q (?in ! (j - j mod T)) else 0)"
      by blast
    have "\<forall>j<?n. out ! j = ?Q (?in ! (j - j mod T))" using o(3) by simp
    then show ?thesis using o(1,2) len by auto
  qed
  have "\<forall>c. \<exists>out. c < ?nch \<longrightarrow>
                bitcrush_loop (bit_steps (real_of_int b)) nfreq ?n 0 0 (getChannelData h buffer c) = Some out \<and>
                length out = ?n \<and>
                (\<forall>j<?n. out ! j = ?Q (getChannelData h buffer c ! (j - j mod T)))"
    by (intro allI each)
  from choice [OF this] obtain G where
    G: "\<forall>c. c < ?nch \<longrightarrow>
          bitcrush_loop (bit_steps (real_of_int b)) nfreq ?n 0 0 (getChannelData h buffer c) = Some (G c) \<and>
          length (G c) = ?n \<and>
          (\<forall>j<?n. G c ! j = ?Q (getChannelData h buffer c ! (j - j mod T)))"
    by blast
  have G1: "\<forall>c<?nch. bitcrush_loop (bit_steps (real_of_int b)) nfreq ?n 0 0 (getChannelData h buffer c) = Some (G c)"
    using G by blast
  from applyMathBitcrush_channels [OF wf G1] obtain h' where
    res: "applyMathBitcrush h buffer (real_of_int b) nfreq = Some h'" and l: "length h' = length h"
    and ch: "\<forall>c<?nch. getChannelData h' buffer c = G c"
    and ot: "\<forall>a. a \<notin> set (channelData buffer) \<longrightarrow> h' ! a = h ! a"
    by blast
  have keep: "\<forall>a<length h. a \<in> set (channelData buffer) \<or> h' ! a = h ! a"
    using ot by blast
  have lens: "\<forall>c<?nch. length (getChannelData h' buffer c) = ?n"
    using ch G by simp
  have val: "getChannelData h' buffer c ! i = ?Q (getChannelData h buffer c ! (i - i mod T))"
    if "c < ?nch" "i < ?n" for c i
    using ch G that by simp
  have steps: "case step_size nfreq of
              Fin S \<Rightarrow> 1 \<le> S \<and>
                (\<forall>c<?nch.
                   (\<forall>i<?n. getChannelData h' buffer c ! i = ?Q (getChannelData h buffer c ! (i - i mod nat S))) \<and>
                   (\<forall>i<?n. i mod nat S = 0 \<longrightarrow>
                      (\<forall>j<nat S. i + j < ?n \<longrightarrow>
                         getChannelData h' buffer c ! (i + j) = getChannelData h' buffer c ! i)))
            | PInf \<Rightarrow>
                (\<forall>c<?nch. \<forall>i<?n. getChannelData h' buffer c ! i = ?Q (getChannelData h buffer c ! 0))
            | _ \<Rightarrow> False"
    using step_size_cases [OF nf]
  proof
    assume p: "step_size nfreq = PInf"
    have "T = ?n" using p by (simp add: T_def)
    then have "getChannelData h' buffer c ! i = ?Q (getChannelData h buffer c ! 0)"
      if "c < ?nch" "i < ?n" for c i
      using val [OF that] that by simp
    then show ?thesis using p by simp
  next
    assume "\<exists>S. step_size nfreq = Fin S \<and> 1 \<le> S"
    then obtain S where S: "step_size nfreq = Fin S" "1 \<le> S" by blast
    have TS: "T = nat S" using S by (simp add: T_def)
    have hold: "getChannelData h' buffer c ! (i + j) = getChannelData h' buffer c ! i"
      if c: "c < ?nch" and i: "i < ?n" "i mod nat S = 0" and j: "j < nat S" "i + j < ?n" for c i j
    proof -
      have "(i + j) mod nat S = j" using i(2) j(1) by (simp add: mod_add_left_eq [symmetric])
      then have "(i + j) - (i + j) mod nat S = i - i mod nat S" using i(2) by simp
      then show ?thesis using val [OF c i(1)] val [OF c j(2)] by (simp add: TS)
    qed
    have "\<forall>c<?nch.
                   (\<forall>i<?n. getChannelData h' buffer c ! i = ?Q (getChannelData h buffer c ! (i - i mod nat S))) \<and>
                   (\<forall>i<?n. i mod nat S = 0 \<longrightarrow>
                      (\<forall>j<nat S. i + j < ?n \<longrightarrow>
                         getChannelData h' buffer c ! (i + j) = getChannelData h' buffer c ! i))"
      using val hold by (simp add: TS)
    with S(2) show ?thesis unfolding S(1) xint.case by (rule conjI)
  qed
  show ?thesis
    by (rule exI [of _ h']) (intro conjI res l keep lens steps)
qed

text \<open>The double nearest to 0.1: its reciprocal rounds to 10, and the step is 10 frames.\<close>

lemma step_size_tenth: "step_size (3602879701896397 / 36028797018963968) = Fin 10"
proof -
  have "floor_dbl (1 / (3602879701896397 / 36028797018963968)) = Fin 10"
    by (rule floor_dbl_eval [where e = 3 and m = "10 * 2 ^ 49"]) (simp_all add: rne_def)
  then show ?thesis by (simp add: step_size_def)
qed

theorem applyMathBitcrush_quantize_hold_witness:
  "wf_buffer store2 buffer2 \<and> (0::real) < 3602879701896397 / 36028797018963968 \<and>
   (3602879701896397 / 36028797018963968 :: real) \<le> 1 \<and> (- 1024 :: int) < 4 \<and> (4::int) < 1024 \<and>
   list_all (\<lambda>x. \<bar>x\<bar> * 2 powi 4 < 2 ^ 1024 \<and> \<bar>x\<bar> + 2 powi (- 4) / 2 < 2 ^ 128 - 2 ^ 103)
     (getChannelData store2 buffer2 0) \<and>
   (\<exists>h'. applyMathBitcrush store2 buffer2 (real_of_int 4) (3602879701896397 / 36028797018963968) = Some h' \<and>
         getChannelData h' buffer2 0 ! 1 = 0 \<and> getChannelData h' buffer2 0 ! 9 = 0)"
proof -
  have nf: "(0::real) < 3602879701896397 / 36028797018963968"
           "(3602879701896397 / 36028797018963968 :: real) \<le> 1" by simp_all
  have b: "(- 1024 :: int) < 4" "(4::int) < 1024" by simp_all
  have small: "\<forall>x\<in>set (getChannelData store2 buffer2 0). \<bar>x\<bar> \<le> 1"
    by (simp add: buffer2_simps)
  have la: "list_all (\<lambda>x. \<bar>x\<bar> * 2 powi 4 < 2 ^ 1024 \<and> \<bar>x\<bar> + 2 powi (- 4) / 2 < 2 ^ 128 - 2 ^ 103)
              (getChannelData store2 buffer2 0)"
    by (simp add: buffer2_simps)
  have rng: "\<forall>c<numberOfChannels buffer2. \<forall>i<blength buffer2.
      \<bar>getChannelData store2 buffer2 c ! i\<bar> * 2 powi 4 < 2 ^ 1024 \<and>
      \<bar>getChannelData store2 buffer2 c ! i\<bar> + 2 powi (- 4) / 2 < 2 ^ 128 - 2 ^ 103"
  proof (intro allI impI)
    fix c i assume c: "c < numberOfChannels buffer2" and i: "i < blength buffer2"
    have c0: "c = 0" using c by (simp add: buffer2_simps)
    have "i < length (getChannelData store2 buffer2 0)" using i by (simp add: buffer2_simps)
    hence "getChannelData store2 buffer2 0 ! i \<in> set (getChannelData store2 buffer2 0)"
      by (rule nth_mem)
    hence x: "\<bar>getChannelData store2 buffer2 c ! i\<bar> \<le> 1" using small c0 by blast
    have "(1::real) * 2 powi 4 < 2 ^ 1024" by simp
    moreover have "(1::real) + 2 powi (- 4) / 2 < 2 ^ 128 - 2 ^ 103" by simp
    ultimately show "\<bar>getChannelData store2 buffer2 c ! i\<bar> * 2 powi 4 < 2 ^ 1024 \<and>
      \<bar>getChannelData store2 buffer2 c ! i\<bar> + 2 powi (- 4) / 2 < 2 ^ 128 - 2 ^ 103"
      using x by simp
  qed
  from applyMathBitcrush_quantize_hold [OF wf_buffer2 nf b rng]
  obtain h' where
    r: "applyMathBitcrush store2 buffer2 (real_of_int 4) (3602879701896397 / 36028797018963968) = Some h'"
       "\<forall>c<numberOfChannels buffer2. \<forall>i<blength buffer2.
          getChannelData h' buffer2 c ! i =
            real_of_int (js_round (getChannelData store2 buffer2 c ! (i - i mod nat 10) * 2 powi 4)) / 2 powi 4"
    unfolding step_size_tenth by auto
  have "getChannelData h' buffer2 0 ! 1 = 0" using r(2) [rule_format, of 0 1]
    by (simp add: buffer2_simps js_round_def)
  moreover have "getChannelData h' buffer2 0 ! 9 = 0" using r(2) [rule_format, of 0 9]
    by (simp add: buffer2_simps js_round_def)
  ultimately show ?thesis using wf_buffer2 nf b la r(1) by blast
qed

text \<open>
  With bits = 1024 the power \<open>Math.pow(2, bits)\<close> is an infinity, \<open>step\<close> is zero and
  \<open>stepScale\<close> an infinity: what the bitcrusher stores at the first frame is not a number.
\<close>

theorem applyMathBitcrush_bits_overflow:
  "applyMathBitcrush store1 buffer1 (real_of_int 1024) (1 / 2) = None"
proof -
  have "floor_dbl (real_of_int 2) = Fin 2" by (rule floor_dbl_of_int) simp
  hence s: "step_size (1 / 2) = Fin 2" by (simp add: step_size_def)
  have on: "on_step (1 / 2) 0" by (simp add: on_step_def s)
  have "bit_steps (real_of_int 1024) = None" by (simp add: bit_steps_def)
  hence "bitcrush_loop (bit_steps (real_of_int 1024)) (1 / 2) 4 0 0 [1 / 2, - 1 / 4, 1 / 8, - 1] = None"
    using on by (subst bitcrush_loop.simps) (simp add: quantize_def)
  then show ?thesis
    by (simp add: applyMathBitcrush_def Let_def buffer1_simps)
qed

section \<open>Rendering a region offline\<close>

text \<open>
  A loop over channels whose round for channel \<open>i\<close> succeeds and overwrites one array,
  whatever the earlier rounds wrote into their own arrays.
\<close>

lemma foldE_frame:
  assumes "\<And>i h'. i \<in> set is \<Longrightarrow> length h' = length h \<Longrightarrow>
             (\<forall>a. a \<in> dst ` (set is - {i}) \<or> h' ! a = h ! a) \<Longrightarrow>
             f i h' = Inr (h'[dst i := G i])"
      and "distinct (map dst is)" and "\<forall>i\<in>set is. dst i < length h"
  shows "\<exists>h'. foldE f is h = Inr h' \<and> length h' = length h \<and>
         (\<forall>i\<in>set is. h' ! dst i = G i) \<and>
         (\<forall>a. a \<in> dst ` set is \<or> h' ! a = h ! a)"
  using assms
proof (induction "is" arbitrary: h)
  case Nil
  then show ?case by simp
next
  case (Cons x xs)
  let ?h1 = "h[dst x := G x]"
  have d: "distinct (map dst xs)" and nx: "dst x \<notin> dst ` set xs"
    using Cons.prems(2) by auto
  have xin: "x \<notin> set xs" using nx by auto
  have b: "\<forall>i\<in>set xs. dst i < length ?h1" using Cons.prems(3) by simp
  have fx: "f x h = Inr ?h1"
    using Cons.prems(1) [of x h] by simp
  have f: "f i h' = Inr (h'[dst i := G i])"
    if i: "i \<in> set xs" and l: "length h' = length ?h1"
      and ag: "\<forall>a. a \<in> dst ` (set xs - {i}) \<or> h' ! a = ?h1 ! a" for i h'
  proof -
    have "\<forall>a. a \<in> dst ` (set (x # xs) - {i}) \<or> h' ! a = h ! a"
    proof
      fix a
      show "a \<in> dst ` (set (x # xs) - {i}) \<or> h' ! a = h ! a"
      proof (cases "a = dst x")
        case True
        have "x \<noteq> i" using i xin by auto
        then show ?thesis using True by auto
      next
        case False
        then have "?h1 ! a = h ! a" by simp
        then show ?thesis using ag by auto
      qed
    qed
    then show ?thesis using Cons.prems(1) [of i h'] i l by simp
  qed
  from Cons.IH [OF f d b] obtain h' where
    h': "foldE f xs ?h1 = Inr h'" "length h' = length ?h1"
        "\<forall>i\<in>set xs. h' ! dst i = G i" "\<forall>a. a \<in> dst ` set xs \<or> h' ! a = ?h1 ! a"
    by blast
  have r: "foldE f (x # xs) h = Inr h'" using fx h'(1) by simp
  have "h' ! dst x = G x" using h'(4) nx Cons.prems(3) by (metis list.set_intros(1) nth_list_update_eq)
  moreover have "\<forall>a. a \<in> dst ` set (x # xs) \<or> h' ! a = h ! a"
  proof
    fix a
    show "a \<in> dst ` set (x # xs) \<or> h' ! a = h ! a"
      using h'(4) [rule_format, of a] by (cases "a = dst x") auto
  qed
  ultimately show ?case using r h'(2,3) by auto
qed

lemma startRendering_ok:
  assumes rok: "renderer_ok render" and n: "0 < nch" "0 < n"
  shows "\<exists>out. startRendering render h g nch n sr src =
                 (h @ out, \<lparr>sampleRate = sr, blength = n, channelData = [length h ..< length h + nch]\<rparr>) \<and>
               length out = nch \<and> (\<forall>c<nch. length (out ! c) = n)"
proof -
  define out where "out = render g sr nch n (map (\<lambda>a. h ! a) (channelData src))"
  have "length out = nch" "list_all (\<lambda>c. length c = n) out"
    using rok by (simp_all add: renderer_ok_def out_def)
  then have "length out = nch \<and> (\<forall>c<nch. length (out ! c) = n)"
    by (simp add: list_all_length)
  moreover have "startRendering render h g nch n sr src =
                 (h @ out, \<lparr>sampleRate = sr, blength = n, channelData = [length h ..< length h + length out]\<rparr>)"
    by (simp add: startRendering_def Let_def out_def)
  ultimately show ?thesis by auto
qed

lemma renderOfflineEffect_in_range:
  assumes wf: "wf_buffer h b" and rok: "renderer_ok render"
      and fs: "floor_dbl (rs * sampleRate b) = Fin s"
      and fe: "floor_dbl (re * sampleRate b) = Fin e"
      and s0: "0 \<le> s" and se: "s < e" and el: "e \<le> int (blength b)"
      and N: "blength b < 2 ^ 32"
  shows "\<exists>h' fb fin. renderOfflineEffect render h b rs re effectType ps = Inr (h', fb, fin) \<and>
           wf_buffer h' fb \<and> blength fb = blength b \<and> sampleRate fb = sampleRate b \<and>
           numberOfChannels fb = numberOfChannels b \<and>
           (\<forall>x\<in>set (channelData fb). length h \<le> x) \<and>
           (\<forall>x<length h. h' ! x = h ! x) \<and>
           (\<forall>c<numberOfChannels b. \<exists>clip.
              length clip = nat (e - s) \<and>
              getChannelData h' fb c =
                take (nat s) (getChannelData h b c) @ clip @
                drop (nat e) (getChannelData h b c) \<and>
              (effectType \<noteq> ''bitcrush'' \<longrightarrow>
                 clip = render (effect_graph effectType ps) (sampleRate b) (numberOfChannels b) (nat (e - s))
                          (map (\<lambda>c. take (nat (e - s)) (drop (nat s) (getChannelData h b c)))
                               [0 ..< numberOfChannels b]) ! c)) \<and>
           (effectType \<noteq> ''bitcrush'' \<longrightarrow> fin)"
proof -
  let ?nch = "numberOfChannels b"
  let ?len = "blength b"
  let ?sr = "sampleRate b"
  define n where "n = nat (e - s)"
  have r: "0 \<le> s" "s < e" "e \<le> int ?len"
    using s0 se el by blast+
  have sle: "s \<le> e" using se by simp
  note fc = frame_count [OF s0 sle el N]
  have ul: "to_ulong (Fin (e - s)) = n" using se fc(2) by (simp add: to_ulong_Fin n_def)
  have pos: "\<not> le0 (xsub (Fin e) (Fin s))" using se by (simp add: le0_xsub_Fin)
  have nch0: "0 < ?nch" and len0: "0 < ?len" using wf_bufferD(1,2) [OF wf] by blast+
  have n0: "0 < n" using r unfolding n_def by linarith
  have sn: "nat s + n = nat e" "nat s + n \<le> ?len"
    using r unfolding n_def by linarith+
  \<comment> \<open>the clip buffer\<close>
  define tb where "tb = \<lparr>sampleRate = ?sr, blength = n, channelData = [length h ..< length h + ?nch]\<rparr>"
  define h0 where "h0 = h @ replicate ?nch (replicate n (0::real))"
  define h1 where "h1 = fold (\<lambda>c h'. copyToChannel h' tb (ta_slice (getChannelData h' b c) (Fin s) (Fin e)) c)
                         [0 ..< ?nch] h0"
  have cb1: "createBuffer h ?nch n ?sr = Inr (h0, tb)"
    using createBuffer_ok [OF nch0 n0] by (simp add: h0_def tb_def)
  note E = extract_loop [OF wf tb_def h0_def h1_def]
  \<comment> \<open>the rendered clip\<close>
  define g where "g = effect_graph effectType ps"
  define srcs where "srcs = map (\<lambda>c. take n (drop (nat s) (getChannelData h b c))) [0 ..< ?nch]"
  define out where "out = render g ?sr ?nch n srcs"
  have slices: "getChannelData h1 tb c = take n (drop (nat s) (getChannelData h b c))"
    if c: "c < ?nch" for c
  proof -
    define sl where "sl = ta_slice (getChannelData h b c) (Fin s) (Fin e)"
    have "e \<le> int (length (getChannelData h b c))"
      using el wf_bufferD(5) [OF wf c] by simp
    from ta_slice_in_range [OF s0 sle this]
    have sl: "sl = take n (drop (nat s) (getChannelData h b c))" "length sl = n"
      by (simp_all only: n_def sl_def)
    have "getChannelData h1 tb c = take n sl @ drop (length sl) (replicate n 0)"
      using E(2) c unfolding sl_def by blast
    then show ?thesis using sl by simp
  qed
  have "map (\<lambda>a. h1 ! a) (channelData tb) = srcs"
    by (rule nth_equalityI)
       (use slices in \<open>simp_all add: srcs_def tb_def getChannelData_def\<close>)
  moreover have lo: "length out = ?nch" "list_all (\<lambda>c. length c = n) out"
    using rok by (simp_all add: renderer_ok_def out_def)
  ultimately have sr: "startRendering render h1 g ?nch n ?sr tb =
           (h1 @ out, \<lparr>sampleRate = ?sr, blength = n, channelData = [length h1 ..< length h1 + ?nch]\<rparr>)"
    by (simp add: startRendering_def Let_def out_def)
  have out: "length out = ?nch" "\<forall>c<?nch. length (out ! c) = n"
    using lo by (simp_all add: list_all_length)
  define pc where "pc = \<lparr>sampleRate = ?sr, blength = n, channelData = [length h1 ..< length h1 + ?nch]\<rparr>"
  define h2 where "h2 = h1 @ out"
  have wf2: "wf_buffer h2 pc"
    using nch0 n0 out by (auto simp: wf_buffer_def pc_def h2_def list_all_length nth_append)
  have pcn: "numberOfChannels pc = ?nch" by (simp add: pc_def numberOfChannels_def)
  define crushed where "crushed = (if effectType = ''bitcrush''
                         then applyMathBitcrush h2 pc (or_default (bits ps) 8) (or_default (normFreq ps) (1 / 2))
                         else Some h2)"
  define h3 where "h3 = (case crushed of None \<Rightarrow> h2 | Some h' \<Rightarrow> h')"
  have same3: "h3 = h2" and fin3: "crushed \<noteq> None" if "effectType \<noteq> ''bitcrush''"
    using that by (simp_all add: h3_def crushed_def)
  have fr3: "length h3 = length h2 \<and> (\<forall>a. length (h3 ! a) = length (h2 ! a)) \<and>
             (\<forall>a. a \<notin> set (channelData pc) \<longrightarrow> h3 ! a = h2 ! a)"
  proof (cases crushed)
    case None
    then show ?thesis by (simp add: h3_def)
  next
    case (Some h')
    show ?thesis
    proof (cases "effectType = ''bitcrush''")
      case True
      then have "applyMathBitcrush h2 pc (or_default (bits ps) 8) (or_default (normFreq ps) (1 / 2)) = Some h3"
        using Some by (simp add: crushed_def h3_def)
      from applyMathBitcrush_frame [OF this] show ?thesis by blast
    next
      case False
      then show ?thesis by (simp add: same3)
    qed
  qed
  have l3: "length h3 = length h2" using fr3 by blast
  have keep3: "\<forall>a<length h1. h3 ! a = h2 ! a"
  proof (intro allI impI)
    fix a assume "a < length h1"
    then have "a \<notin> set (channelData pc)" by (simp add: pc_def)
    then show "h3 ! a = h2 ! a" using fr3 by blast
  qed
  have clip3: "\<forall>c<?nch. length (getChannelData h3 pc c) = n"
  proof (intro allI impI)
    fix c assume c: "c < ?nch"
    have "length (getChannelData h2 pc c) = n" using wf_bufferD(5) [OF wf2] c pcn by (simp add: pc_def)
    then show "length (getChannelData h3 pc c) = n"
      using fr3 by (simp add: getChannelData_def)
  qed
  \<comment> \<open>the final buffer\<close>
  define fb where "fb = \<lparr>sampleRate = ?sr, blength = ?len, channelData = [length h3 ..< length h3 + ?nch]\<rparr>"
  define h4 where "h4 = h3 @ replicate ?nch (replicate ?len (0::real))"
  have cb2: "createBuffer h3 ?nch ?len ?sr = Inr (h4, fb)"
    using createBuffer_ok [OF nch0 len0] by (simp add: h4_def fb_def)
  let ?f = "\<lambda>c h'.
              case ta_set (getChannelData h' fb c) (getChannelData h' b c) (Fin 0) of
                Inl e \<Rightarrow> Inl e
              | Inr data \<Rightarrow>
                 (case ta_set data (getChannelData h' pc c) (Fin s) of
                    Inl e \<Rightarrow> Inl e
                  | Inr data' \<Rightarrow> Inr (h'[channelData fb ! c := data']))"
  let ?dst = "\<lambda>c. channelData fb ! c"
  let ?G = "\<lambda>c. take (nat s) (getChannelData h b c) @ getChannelData h3 pc c @
                 drop (nat e) (getChannelData h b c)"
  have lens: "length h1 = length h + ?nch" "length h2 = length h + ?nch + ?nch"
             "length h4 = length h3 + ?nch"
    using E(1) out(1) by (simp_all add: h2_def h4_def)
  have dst: "\<And>c. c < ?nch \<Longrightarrow> ?dst c = length h3 + c" by (simp add: fb_def)
  have old: "h4 ! a = h ! a" if "a < length h" for a
  proof -
    have "h4 ! a = h3 ! a" using that l3 lens by (simp add: h4_def nth_append)
    also have "\<dots> = h2 ! a" using keep3 that lens by simp
    also have "\<dots> = h1 ! a" using that lens by (simp add: h2_def nth_append)
    also have "\<dots> = h ! a" using E(3) that by simp
    finally show ?thesis .
  qed
  have a1: "?f i h' = Inr (h'[?dst i := ?G i])"
    if i: "i \<in> set [0 ..< ?nch]" and l: "length h' = length h4"
      and ag: "\<forall>a. a \<in> ?dst ` (set [0 ..< ?nch] - {i}) \<or> h' ! a = h4 ! a" for i h'
  proof -
    have c: "i < ?nch" using i by simp
    have nd: "a \<notin> ?dst ` (set [0 ..< ?nch] - {i})" if "a < length h3" for a
      using that dst by auto
    have ndi: "?dst i \<notin> ?dst ` (set [0 ..< ?nch] - {i})"
      using dst c by auto
    have t: "getChannelData h' fb i = replicate ?len 0"
    proof -
      have "h' ! ?dst i = h4 ! ?dst i" using ag ndi by blast
      then show ?thesis using c l3 by (simp add: getChannelData_def dst h4_def nth_append)
    qed
    have ad: "channelData b ! i < length h" using wf_bufferD(4) [OF wf c] .
    have o: "getChannelData h' b i = getChannelData h b i"
    proof -
      have "channelData b ! i < length h3" using ad l3 lens by simp
      then have "h' ! (channelData b ! i) = h4 ! (channelData b ! i)" using ag nd by blast
      then show ?thesis using old [OF ad] by (simp add: getChannelData_def)
    qed
    have p: "getChannelData h' pc i = getChannelData h3 pc i"
    proof -
      have a: "channelData pc ! i = length h1 + i" using c by (simp add: pc_def)
      then have "channelData pc ! i < length h3" using c l3 lens by simp
      then have "h' ! (channelData pc ! i) = h4 ! (channelData pc ! i)" using ag nd by blast
      also have "\<dots> = h3 ! (channelData pc ! i)"
        using a c l3 lens by (simp add: h4_def nth_append)
      finally show ?thesis by (simp add: getChannelData_def)
    qed
    have lo: "length (getChannelData h b i) = ?len" using wf_bufferD(5) [OF wf c] .
    have lp: "length (getChannelData h3 pc i) = n" using clip3 c by simp
    have s1: "ta_set (replicate ?len 0) (getChannelData h b i) (Fin 0) = Inr (getChannelData h b i)"
      using lo by (simp add: ta_set_def)
    have s2: "ta_set (getChannelData h b i) (getChannelData h3 pc i) (Fin s) = Inr (?G i)"
      using lo lp sn r by (simp add: ta_set_def)
    show ?thesis by (simp add: t o p s1 s2)
  qed
  have "map ?dst [0 ..< ?nch] = channelData fb"
    by (rule nth_equalityI) (simp_all add: fb_def)
  then have a2: "distinct (map ?dst [0 ..< ?nch])" by (simp add: fb_def)
  have a3: "\<forall>i\<in>set [0 ..< ?nch]. ?dst i < length h4" by (simp add: dst lens)
  from foldE_frame [where f = ?f and dst = ?dst and G = ?G and h = h4, OF a1 a2 a3]
  obtain h5 where h5: "foldE ?f [0 ..< ?nch] h4 = Inr h5" "length h5 = length h4"
      "\<forall>i\<in>set [0 ..< ?nch]. h5 ! ?dst i = ?G i"
      "\<forall>a. a \<in> ?dst ` set [0 ..< ?nch] \<or> h5 ! a = h4 ! a"
    by blast
  have res: "renderOfflineEffect render h b rs re effectType ps = Inr (h5, fb, crushed \<noteq> None)"
    using pos cb1 sr cb2 h5(1) [folded fs]
    by (simp add: renderOfflineEffect_def Let_def fs fe fc(1) ul
          g_def [symmetric] h1_def [symmetric] pc_def [symmetric]
          h2_def [symmetric] crushed_def [symmetric] h3_def [symmetric]
          split del: if_split)
  have chan: "\<forall>c<?nch. getChannelData h5 fb c = ?G c"
    using h5(3) by (simp add: getChannelData_def)
  have wf5: "wf_buffer h5 fb"
  proof -
    have "length (h5 ! (length h3 + c)) = ?len" if c: "c < ?nch" for c
    proof -
      have "h5 ! (length h3 + c) = ?G c" using chan c by (simp add: getChannelData_def fb_def)
      moreover have "length (?G c) = ?len"
        using wf_bufferD(5) [OF wf c] clip3 c sn by simp
      ultimately show ?thesis by simp
    qed
    then show ?thesis
      using nch0 len0 h5(2) lens
      by (auto simp: wf_buffer_def fb_def list_all_length)
  qed
  have fresh: "\<forall>x\<in>set (channelData fb). length h \<le> x"
    using l3 lens by (simp add: fb_def)
  have keep: "\<forall>x<length h. h5 ! x = h ! x"
  proof (intro allI impI)
    fix a assume a: "a < length h"
    then have "a \<notin> ?dst ` set [0 ..< ?nch]" using dst l3 lens by auto
    then have "h5 ! a = h4 ! a" using h5(4) by blast
    then show "h5 ! a = h ! a" using old [OF a] by simp
  qed
  have clips: "\<forall>c<?nch. \<exists>clip. length clip = n \<and>
                 getChannelData h5 fb c =
                   take (nat s) (getChannelData h b c) @ clip @ drop (nat e) (getChannelData h b c) \<and>
                 (effectType \<noteq> ''bitcrush'' \<longrightarrow> clip = render g ?sr ?nch n srcs ! c)"
  proof (intro allI impI)
    fix c assume c: "c < ?nch"
    have "effectType \<noteq> ''bitcrush'' \<longrightarrow> getChannelData h3 pc c = render g ?sr ?nch n srcs ! c"
    proof
      assume "effectType \<noteq> ''bitcrush''"
      then have "h3 = h2" by (rule same3)
      then show "getChannelData h3 pc c = render g ?sr ?nch n srcs ! c"
        using c by (simp add: getChannelData_def pc_def h2_def out_def [symmetric])
    qed
    then show "\<exists>clip. length clip = n \<and>
                 getChannelData h5 fb c =
                   take (nat s) (getChannelData h b c) @ clip @ drop (nat e) (getChannelData h b c) \<and>
                 (effectType \<noteq> ''bitcrush'' \<longrightarrow> clip = render g ?sr ?nch n srcs ! c)"
      using chan clip3 c by blast
  qed
  have fin: "effectType \<noteq> ''bitcrush'' \<longrightarrow> (crushed \<noteq> None)" using fin3 by blast
  have sh: "blength fb = ?len" "sampleRate fb = ?sr" "numberOfChannels fb = ?nch"
    by (simp_all add: fb_def numberOfChannels_def)
  show ?thesis
    unfolding n_def [symmetric] g_def [symmetric] srcs_def [symmetric]
    by (rule exI [of _ h5], rule exI [of _ fb], rule exI [of _ "crushed \<noteq> None"])
       (intro conjI res wf5 sh fresh keep clips fin)
qed

lemma spliced_outside:
  assumes "nat s + length clip = nat e" "nat e \<le> length xs" "i < length xs"
      and "i < nat s \<or> nat e \<le> i"
  shows "(take (nat s) xs @ clip @ drop (nat e) xs) ! i = xs ! i"
proof (cases "i < nat s")
  case True
  then show ?thesis using assms(1,2) by (simp add: nth_append)
next
  case False
  then have ei: "nat e \<le> i" using assms(4) by simp
  have l: "length (take (nat s) xs) = nat s" using assms(1,2) by simp
  have "(take (nat s) xs @ clip @ drop (nat e) xs) ! i = (clip @ drop (nat e) xs) ! (i - nat s)"
    using False l by (simp add: nth_append)
  also have "\<dots> = drop (nat e) xs ! (i - nat s - length clip)"
  proof -
    have "\<not> i - nat s < length clip" using ei assms(1) by linarith
    then show ?thesis by (simp add: nth_append)
  qed
  also have "i - nat s - length clip = i - nat e" using assms(1) by simp
  also have "drop (nat e) xs ! (i - nat e) = xs ! i" using ei assms(2) by simp
  finally show ?thesis .
qed

lemma renderer_ok_silent: "renderer_ok silent_render"
  by (simp add: renderer_ok_def silent_render_def list_all_length)

text \<open>At 44100 Hz the times 5/65536 s and 5/32768 s are the frames 3 and 6.\<close>

lemma frames_3_6:
  "floor_dbl (5 / 65536 * 44100) = Fin 3"
  "floor_dbl (5 / 32768 * 44100) = Fin 6"
proof -
  show "floor_dbl (5 / 65536 * 44100) = Fin 3"
    by (rule floor_dbl_eval [where e = 1 and m = "220500 * 2 ^ 35"]) (simp_all add: rne_def)
  show "floor_dbl (5 / 32768 * 44100) = Fin 6"
    by (rule floor_dbl_eval [where e = 2 and m = "220500 * 2 ^ 35"]) (simp_all add: rne_def)
qed

text \<open>
  C1. Let s = Math.floor(regionStart * sampleRate) and e = Math.floor(regionEnd * sampleRate)
  be the frames that the program computes, with the products rounded to doubles. For a
  region whose frames lie within the buffer, 0 \<le> s < e \<le> length, for every effect type
  and parameter object, and for every offline renderer that returns a clip of the shape
  of its context, renderOfflineEffect returns a buffer of the length, channel count and
  sample rate of the source, whose channels are newly allocated; every array that existed
  before, so every channel of the source, is untouched; and on every channel every frame
  outside the region holds the sample of the source.
\<close>

theorem renderOfflineEffect_locality:
  assumes wf: "wf_buffer h b" and rok: "renderer_ok render"
      and fs: "floor_dbl (rs * sampleRate b) = Fin s"
      and fe: "floor_dbl (re * sampleRate b) = Fin e"
      and s0: "0 \<le> s" and se: "s < e" and el: "e \<le> int (blength b)"
      and N: "blength b < 2 ^ 32"
  shows "\<exists>h' fb numeric. renderOfflineEffect render h b rs re effectType ps = Inr (h', fb, numeric) \<and>
           wf_buffer h' fb \<and> blength fb = blength b \<and> sampleRate fb = sampleRate b \<and>
           numberOfChannels fb = numberOfChannels b \<and>
           (\<forall>x\<in>set (channelData fb). length h \<le> x) \<and>
           (\<forall>x<length h. h' ! x = h ! x) \<and>
           (\<forall>c<numberOfChannels b. \<forall>i<blength b.
              int i < s \<or> e \<le> int i \<longrightarrow>
              getChannelData h' fb c ! i = getChannelData h b c ! i)"
proof -
  from renderOfflineEffect_in_range [OF wf rok fs fe s0 se el N, of effectType ps]
  obtain h' fb numeric where
    res: "renderOfflineEffect render h b rs re effectType ps = Inr (h', fb, numeric)"
    and sh: "wf_buffer h' fb" "blength fb = blength b" "sampleRate fb = sampleRate b"
            "numberOfChannels fb = numberOfChannels b"
            "\<forall>x\<in>set (channelData fb). length h \<le> x" "\<forall>x<length h. h' ! x = h ! x"
    and clips: "\<forall>c<numberOfChannels b. \<exists>clip. length clip = nat (e - s) \<and>
                  getChannelData h' fb c =
                    take (nat s) (getChannelData h b c) @ clip @ drop (nat e) (getChannelData h b c) \<and>
                  (effectType \<noteq> ''bitcrush'' \<longrightarrow>
                     clip = render (effect_graph effectType ps) (sampleRate b) (numberOfChannels b) (nat (e - s))
                              (map (\<lambda>c. take (nat (e - s)) (drop (nat s) (getChannelData h b c)))
                                   [0 ..< numberOfChannels b]) ! c)"
    by blast
  have loc: "\<forall>c<numberOfChannels b. \<forall>i<blength b.
              int i < s \<or> e \<le> int i \<longrightarrow> getChannelData h' fb c ! i = getChannelData h b c ! i"
  proof (intro allI impI)
    fix c i assume c: "c < numberOfChannels b" and i: "i < blength b"
      and o: "int i < s \<or> e \<le> int i"
    from clips c obtain clip where clip: "length clip = nat (e - s)"
      "getChannelData h' fb c =
         take (nat s) (getChannelData h b c) @ clip @ drop (nat e) (getChannelData h b c)"
      by blast
    have len: "length (getChannelData h b c) = blength b" using wf_bufferD(5) [OF wf c] .
    have 1: "nat s + length clip = nat e" using clip(1) s0 se by linarith
    have 2: "nat e \<le> length (getChannelData h b c)" using el len by linarith
    have 3: "i < length (getChannelData h b c)" using i len by simp
    have 4: "i < nat s \<or> nat e \<le> i" using o s0 se by linarith
    show "getChannelData h' fb c ! i = getChannelData h b c ! i"
      using spliced_outside [OF 1 2 3 4] clip(2) by simp
  qed
  show ?thesis
    by (rule exI [of _ h'], rule exI [of _ fb], rule exI [of _ numeric]) (intro conjI res sh loc)
qed

theorem renderOfflineEffect_locality_witness:
  "wf_buffer store1 buffer1 \<and> renderer_ok silent_render \<and>
   floor_dbl (1 / 32768 * sampleRate buffer1) = Fin 1 \<and>
   floor_dbl (5 / 65536 * sampleRate buffer1) = Fin 3 \<and>
   (0::int) \<le> 1 \<and> (1::int) < 3 \<and> 3 \<le> int (blength buffer1) \<and> blength buffer1 < 2 ^ 32 \<and>
   (\<exists>h' fb numeric. renderOfflineEffect silent_render store1 buffer1 (1 / 32768) (5 / 65536) ''bitcrush''
               \<lparr>amount = None, time = None, feedback = None, bits = Some 4, normFreq = None, volume = None\<rparr>
               = Inr (h', fb, numeric) \<and>
            blength fb = 4 \<and>
            getChannelData h' fb 0 ! 0 = 1 / 2 \<and> getChannelData h' fb 0 ! 3 = - 1 \<and>
            h' ! 0 = [1 / 2, - 1 / 4, 1 / 8, - 1])"
proof -
  have f: "floor_dbl (1 / 32768 * sampleRate buffer1) = Fin 1"
          "floor_dbl (5 / 65536 * sampleRate buffer1) = Fin 3"
    unfolding buffer1_simps by (rule frames_1_4(1), rule frames_3_6(1))
  have h: "(0::int) \<le> 1" "(1::int) < 3" "3 \<le> int (blength buffer1)" "blength buffer1 < 2 ^ 32"
    by (simp_all add: buffer1_simps)
  from renderOfflineEffect_locality [OF wf_buffer1 renderer_ok_silent f h, of "''bitcrush''"
      "\<lparr>amount = None, time = None, feedback = None, bits = Some 4, normFreq = None, volume = None\<rparr>"]
  obtain h' fb numeric where
    r: "renderOfflineEffect silent_render store1 buffer1 (1 / 32768) (5 / 65536) ''bitcrush''
               \<lparr>amount = None, time = None, feedback = None, bits = Some 4, normFreq = None, volume = None\<rparr>
               = Inr (h', fb, numeric)"
       "blength fb = blength buffer1"
       "\<forall>x<length store1. h' ! x = store1 ! x"
       "\<forall>c<numberOfChannels buffer1. \<forall>i<blength buffer1.
              int i < 1 \<or> 3 \<le> int i \<longrightarrow>
              getChannelData h' fb c ! i = getChannelData store1 buffer1 c ! i"
    by blast
  have v: "getChannelData h' fb c ! i = getChannelData store1 buffer1 c ! i"
    if "c < 1" "i < 4" "int i < 1 \<or> 3 \<le> int i" for c i
    using r(4) that by (auto simp: buffer1_simps)
  have "getChannelData h' fb 0 ! 0 = 1 / 2" using v [of 0 0] by (simp add: buffer1_simps)
  moreover have "getChannelData h' fb 0 ! 3 = - 1" using v [of 0 3] by (simp add: buffer1_simps)
  moreover have "h' ! 0 = [1 / 2, - 1 / 4, 1 / 8, - 1]" using r(3) by (simp add: store1_def)
  moreover have "blength fb = 4" using r(2) by (simp add: buffer1_simps)
  ultimately show ?thesis using wf_buffer1 renderer_ok_silent f h r(1) by blast
qed

text \<open>
  A region that reaches beyond the end of the buffer: at 44100 Hz, on a buffer of four
  frames, the region from 1/32768 s to 5/32768 s is the frames 1 to 6. The rendered clip
  of five frames does not fit into the copy of the source at frame 1, and the merge raises
  a RangeError.
\<close>

theorem renderOfflineEffect_beyond_end:
  "renderOfflineEffect silent_render store1 buffer1 (1 / 32768) (5 / 32768) ''delay''
     \<lparr>amount = None, time = None, feedback = None, bits = None, normFreq = None, volume = None\<rparr>
   = Inl RangeError"
proof -
  have f: "floor_dbl (1 / 32768 * sampleRate buffer1) = Fin 1"
          "floor_dbl (5 / 32768 * sampleRate buffer1) = Fin 6"
    unfolding buffer1_simps by (rule frames_1_4(1), rule frames_3_6(2))
  have x: "xsub (Fin 6) (Fin 1) = Fin 5" using xsub_Fin [of 6 1] by simp
  show ?thesis
    unfolding renderOfflineEffect_def Let_def f x
    by (simp add: createBuffer_def to_ulong_def buffer1_def store1_def
        copyToChannel_def startRendering_def silent_render_def ta_set_def ta_slice_def
        rel_index_def numberOfChannels_def getChannelData_def effect_graph_def)
qed

section \<open>renderOfflineEffect\<close>

text \<open>
  C5. When the frame count that the program computes,
  Math.floor(regionEnd * sampleRate) - Math.floor(regionStart * sampleRate) with the
  products rounded to doubles, is not positive, renderOfflineEffect returns the buffer
  it was given, with the store as it was and without an error, for every effect type and
  every parameter object.
\<close>

theorem renderOfflineEffect_empty_range:
  assumes "le0 (xsub (floor_dbl (regionEnd * sampleRate b)) (floor_dbl (regionStart * sampleRate b)))"
  shows "renderOfflineEffect render h b regionStart regionEnd effectType ps = Inr (h, b, True)"
  using assms by (simp add: renderOfflineEffect_def Let_def)

text \<open>
  At 44100 Hz the doubles nearest to 0.3 and to 0.30001 are both the frame 13230: the
  product of the first rounds up to 13230.
\<close>

lemma frames_13230:
  "floor_dbl (5404319552844595 / 18014398509481984 * 44100) = Fin 13230"
  "floor_dbl (2702249848414845 / 9007199254740992 * 44100) = Fin 13230"
proof -
  show "floor_dbl (5404319552844595 / 18014398509481984 * 44100) = Fin 13230"
    by (rule floor_dbl_eval [where e = 13 and m = "13230 * 2 ^ 39"]) (simp_all add: rne_def)
  show "floor_dbl (2702249848414845 / 9007199254740992 * 44100) = Fin 13230"
    by (rule floor_dbl_eval [where e = 13 and m = "7273511860052165"]) (simp_all add: rne_def)
qed

theorem renderOfflineEffect_empty_range_witness:
  "le0 (xsub (floor_dbl (2702249848414845 / 9007199254740992 * sampleRate buffer1))
             (floor_dbl (5404319552844595 / 18014398509481984 * sampleRate buffer1))) \<and>
   renderOfflineEffect silent_render store1 buffer1
     (5404319552844595 / 18014398509481984) (2702249848414845 / 9007199254740992) ''delay''
     \<lparr>amount = None, time = None, feedback = None, bits = None, normFreq = None, volume = None\<rparr>
     = Inr (store1, buffer1, True)"
proof -
  have "le0 (xsub (floor_dbl (2702249848414845 / 9007199254740992 * sampleRate buffer1))
             (floor_dbl (5404319552844595 / 18014398509481984 * sampleRate buffer1)))"
    unfolding buffer1_simps frames_13230 by (simp add: le0_xsub_Fin)
  from this renderOfflineEffect_empty_range [OF this] show ?thesis by blast
qed

text \<open>
  C10. In the delay branch the delay time is \<open>params.time\<close> when that is truthy and 0.3
  otherwise, and the feedback gain is \<open>params.feedback\<close> when truthy and 0.5 otherwise:
  an absent property and the number 0 both give the default. For a region whose frames
  s, ..., e - 1 lie within the buffer, the region of the returned buffer is the clip
  that the offline renderer makes of those frames through the delay with that time and
  that gain. So a render with feedback 0 is rendered through a delay of feedback 0.5, and
  a render with time 0 through a delay of time 0.3.
\<close>

theorem delay_defaults_by_falsiness:
  assumes wf: "wf_buffer h b" and rok: "renderer_ok render"
      and fs: "floor_dbl (rs * sampleRate b) = Fin s"
      and fe: "floor_dbl (re * sampleRate b) = Fin e"
      and s0: "0 \<le> s" and se: "s < e" and el: "e \<le> int (blength b)"
      and N: "blength b < 2 ^ 32"
  shows "let delayTime = (case time ps of None \<Rightarrow> 3 / 10 | Some t \<Rightarrow> if t = 0 then 3 / 10 else t);
             gain = (case feedback ps of None \<Rightarrow> 1 / 2 | Some g \<Rightarrow> if g = 0 then 1 / 2 else g);
             n = nat (e - s);
             clips = render (Delay delayTime gain) (sampleRate b) (numberOfChannels b) n
                       (map (\<lambda>c. take n (drop (nat s) (getChannelData h b c))) [0 ..< numberOfChannels b])
         in effect_graph ''delay'' ps = Delay delayTime gain \<and>
            (\<exists>h' fb. renderOfflineEffect render h b rs re ''delay'' ps = Inr (h', fb, True) \<and>
               (\<forall>c<numberOfChannels b.
                  getChannelData h' fb c =
                    take (nat s) (getChannelData h b c) @ clips ! c @ drop (nat e) (getChannelData h b c)))"
proof -
  define delayTime where
    "delayTime = (case time ps of None \<Rightarrow> 3 / 10 | Some t \<Rightarrow> if t = 0 then 3 / 10 else t)"
  define gain where
    "gain = (case feedback ps of None \<Rightarrow> 1 / 2 | Some g \<Rightarrow> if g = 0 then (1 / 2 :: real) else g)"
  define n where "n = nat (e - s)"
  define clips where
    "clips = render (Delay delayTime gain) (sampleRate b) (numberOfChannels b) n
               (map (\<lambda>c. take n (drop (nat s) (getChannelData h b c))) [0 ..< numberOfChannels b])"
  have g: "effect_graph ''delay'' ps = Delay delayTime gain"
    by (simp add: effect_graph_def or_default_def delayTime_def gain_def)
  have nb: "''delay'' \<noteq> ''bitcrush''" by simp
  from renderOfflineEffect_in_range [OF wf rok fs fe s0 se el N, of "''delay''" ps]
  obtain h' fb numeric where
    res: "renderOfflineEffect render h b rs re ''delay'' ps = Inr (h', fb, numeric)"
    and cl: "\<forall>c<numberOfChannels b. \<exists>clip. length clip = nat (e - s) \<and>
                  getChannelData h' fb c =
                    take (nat s) (getChannelData h b c) @ clip @ drop (nat e) (getChannelData h b c) \<and>
                  (''delay'' \<noteq> ''bitcrush'' \<longrightarrow>
                     clip = render (effect_graph ''delay'' ps) (sampleRate b) (numberOfChannels b) (nat (e - s))
                              (map (\<lambda>c. take (nat (e - s)) (drop (nat s) (getChannelData h b c)))
                                   [0 ..< numberOfChannels b]) ! c)"
    and fin: "''delay'' \<noteq> ''bitcrush'' \<longrightarrow> numeric"
    by blast
  have numeric using fin nb by blast
  hence res': "renderOfflineEffect render h b rs re ''delay'' ps = Inr (h', fb, True)"
    using res by simp
  have chans: "\<forall>c<numberOfChannels b.
                  getChannelData h' fb c =
                    take (nat s) (getChannelData h b c) @ clips ! c @ drop (nat e) (getChannelData h b c)"
  proof (intro allI impI)
    fix c assume c: "c < numberOfChannels b"
    from cl c nb obtain clip where
      1: "getChannelData h' fb c =
            take (nat s) (getChannelData h b c) @ clip @ drop (nat e) (getChannelData h b c)"
      and 2: "clip = render (effect_graph ''delay'' ps) (sampleRate b) (numberOfChannels b) (nat (e - s))
                              (map (\<lambda>c. take (nat (e - s)) (drop (nat s) (getChannelData h b c)))
                                   [0 ..< numberOfChannels b]) ! c"
      by blast
    have "clip = clips ! c" unfolding 2 g clips_def n_def ..
    then show "getChannelData h' fb c =
                    take (nat s) (getChannelData h b c) @ clips ! c @ drop (nat e) (getChannelData h b c)"
      using 1 by simp
  qed
  have ex: "\<exists>h' fb. renderOfflineEffect render h b rs re ''delay'' ps = Inr (h', fb, True) \<and>
               (\<forall>c<numberOfChannels b.
                  getChannelData h' fb c =
                    take (nat s) (getChannelData h b c) @ clips ! c @ drop (nat e) (getChannelData h b c))"
    using res' chans by blast
  show ?thesis
    unfolding Let_def delayTime_def [symmetric] gain_def [symmetric] n_def [symmetric]
      clips_def [symmetric]
    using g ex by (rule conjI)
qed

lemma renderer_ok_feedback: "renderer_ok feedback_render"
  by (simp add: renderer_ok_def feedback_render_def list_all_length)

theorem delay_defaults_by_falsiness_witness:
  "wf_buffer store1 buffer1 \<and> renderer_ok feedback_render \<and>
   floor_dbl (1 / 32768 * sampleRate buffer1) = Fin 1 \<and>
   floor_dbl (5 / 65536 * sampleRate buffer1) = Fin 3 \<and>
   (0::int) \<le> 1 \<and> (1::int) < 3 \<and> 3 \<le> int (blength buffer1) \<and> blength buffer1 < 2 ^ 32 \<and>
   (\<exists>h' fb. renderOfflineEffect feedback_render store1 buffer1 (1 / 32768) (5 / 65536) ''delay''
               \<lparr>amount = None, time = Some 0, feedback = Some 0, bits = None, normFreq = None, volume = None\<rparr>
               = Inr (h', fb, True) \<and>
            getChannelData h' fb 0 = [1 / 2, 1 / 2, 1 / 2, - 1])"
proof -
  have f: "floor_dbl (1 / 32768 * sampleRate buffer1) = Fin 1"
          "floor_dbl (5 / 65536 * sampleRate buffer1) = Fin 3"
    unfolding buffer1_simps by (rule frames_1_4(1), rule frames_3_6(1))
  have h: "(0::int) \<le> 1" "(1::int) < 3" "3 \<le> int (blength buffer1)" "blength buffer1 < 2 ^ 32"
    by (simp_all add: buffer1_simps)
  from delay_defaults_by_falsiness [OF wf_buffer1 renderer_ok_feedback f h, of
      "\<lparr>amount = None, time = Some 0, feedback = Some 0, bits = None, normFreq = None, volume = None\<rparr>"]
  obtain h' fb where
    r: "renderOfflineEffect feedback_render store1 buffer1 (1 / 32768) (5 / 65536) ''delay''
               \<lparr>amount = None, time = Some 0, feedback = Some 0, bits = None, normFreq = None, volume = None\<rparr>
               = Inr (h', fb, True)"
       "getChannelData h' fb 0 = [1 / 2, 1 / 2, 1 / 2, - 1]"
    by (auto simp: Let_def buffer1_simps feedback_render_def numeral_2_eq_2)
  then show ?thesis using wf_buffer1 renderer_ok_feedback f h by blast
qed

section \<open>The distortion curve\<close>

lemma makeDistortionCurve_nth:
  assumes "i < 44100"
  shows "makeDistortionCurve amt ! i =
           fdiv ((3 + (case amt of Some a \<Rightarrow> a | None \<Rightarrow> 50)) * ((real i * 2) / 44100 - 1) * 20 * (pi / 180))
                (pi + (case amt of Some a \<Rightarrow> a | None \<Rightarrow> 50) * \<bar>(real i * 2) / 44100 - 1\<bar>)"
proof -
  have "i < length [0 ..< (44100::nat)]" using assms by (simp only: length_upt diff_zero)
  then show ?thesis
    unfolding makeDistortionCurve_def Let_def
    by (simp only: nth_map nth_upt) (simp add: assms)
qed

text \<open>
  C8. For a numeric amount k the table has exactly 44100 entries; entry i is
  ((3 + k) x 20 (pi / 180)) / (pi + k |x|) at x = 2 i / 44100 - 1, wherever that quotient
  is defined (its divisor is not zero, which is so for every k \<ge> 0); the points x start
  at - 1 and lie in [- 1, 1). The table is a function of the amount alone.
\<close>

theorem makeDistortionCurve_table:
  "length (makeDistortionCurve (Some k)) = 44100 \<and>
   (\<forall>i<44100.
      let x = (2 * real i) / 44100 - 1
      in - 1 \<le> x \<and> x < 1 \<and> (i = 0 \<longrightarrow> x = - 1) \<and>
         makeDistortionCurve (Some k) ! i =
           (if pi + k * \<bar>x\<bar> = 0 then None
            else Some (((3 + k) * x * 20 * (pi / 180)) / (pi + k * \<bar>x\<bar>))) \<and>
         (0 \<le> k \<longrightarrow> pi + k * \<bar>x\<bar> \<noteq> 0))"
proof -
  have len: "length (makeDistortionCurve (Some k)) = 44100"
    unfolding makeDistortionCurve_def Let_def by (simp only: length_map length_upt diff_zero)
  have ent: "let x = (2 * real i) / 44100 - 1
      in - 1 \<le> x \<and> x < 1 \<and> (i = 0 \<longrightarrow> x = - 1) \<and>
         makeDistortionCurve (Some k) ! i =
           (if pi + k * \<bar>x\<bar> = 0 then None
            else Some (((3 + k) * x * 20 * (pi / 180)) / (pi + k * \<bar>x\<bar>))) \<and>
         (0 \<le> k \<longrightarrow> pi + k * \<bar>x\<bar> \<noteq> 0)" if i: "i < 44100" for i
  proof -
    define x where "x = (2 * real i) / 44100 - 1"
    have x': "(real i * 2) / 44100 - 1 = x" by (simp add: x_def)
    have r: "- 1 \<le> x" "x < 1" using i by (simp_all add: x_def)
    have z: "i = 0 \<longrightarrow> x = - 1" by (simp add: x_def)
    have e: "makeDistortionCurve (Some k) ! i =
           (if pi + k * \<bar>x\<bar> = 0 then None
            else Some (((3 + k) * x * 20 * (pi / 180)) / (pi + k * \<bar>x\<bar>)))"
      using makeDistortionCurve_nth [OF i, of "Some k"] unfolding x' by (simp add: fdiv_def)
    have p: "0 \<le> k \<longrightarrow> pi + k * \<bar>x\<bar> \<noteq> 0"
    proof
      assume "0 \<le> k"
      then have "0 \<le> k * \<bar>x\<bar>" by simp
      then have "0 < pi + k * \<bar>x\<bar>" using pi_gt_zero by linarith
      then show "pi + k * \<bar>x\<bar> \<noteq> 0" by simp
    qed
    show ?thesis unfolding Let_def x_def [symmetric] by (intro conjI r z e p)
  qed
  show ?thesis using len ent by blast
qed

theorem makeDistortionCurve_table_witness:
  "(0::nat) < 44100 \<and> (0::real) \<le> 50 \<and>
   makeDistortionCurve (Some 50) ! 0 = Some (((3 + 50) * (- 1) * 20 * (pi / 180)) / (pi + 50 * \<bar>- 1\<bar>)) \<and>
   length (makeDistortionCurve (Some 50)) = 44100"
proof -
  have nz: "pi + 50 \<noteq> 0" using pi_gt_zero by linarith
  from makeDistortionCurve_table [of 50]
  have l: "length (makeDistortionCurve (Some 50)) = 44100"
    and e: "\<forall>i<44100. makeDistortionCurve (Some 50) ! i =
           (if pi + 50 * \<bar>(2 * real i) / 44100 - 1\<bar> = 0 then None
            else Some (((3 + 50) * ((2 * real i) / 44100 - 1) * 20 * (pi / 180)) / (pi + 50 * \<bar>(2 * real i) / 44100 - 1\<bar>)))"
    unfolding Let_def by blast+
  have "makeDistortionCurve (Some 50) ! 0 = Some (((3 + 50) * (- 1) * 20 * (pi / 180)) / (pi + 50 * \<bar>- 1\<bar>))"
    using e [rule_format, of 0] nz by simp
  then show ?thesis using l by simp
qed

section \<open>Normalizing the export\<close>

lemma scan_peak_bounds:
  "m \<le> scan_peak data m \<and> (\<forall>x\<in>set data. \<bar>x\<bar> \<le> scan_peak data m) \<and>
   (scan_peak data m = m \<or> (\<exists>x\<in>set data. scan_peak data m = \<bar>x\<bar>))"
proof (induction data arbitrary: m)
  case Nil
  then show ?case by (simp add: scan_peak_def)
next
  case (Cons a data)
  define m' where "m' = (if \<bar>a\<bar> > m then \<bar>a\<bar> else m)"
  have s: "scan_peak (a # data) m = scan_peak data m'"
    by (simp add: scan_peak_def m'_def)
  have m': "m \<le> m'" "\<bar>a\<bar> \<le> m'" "m' = m \<or> m' = \<bar>a\<bar>" by (auto simp: m'_def)
  note IH = Cons.IH [of m']
  have "m \<le> scan_peak (a # data) m" using IH m'(1) s by linarith
  moreover have "\<forall>x\<in>set (a # data). \<bar>x\<bar> \<le> scan_peak (a # data) m"
    using IH m'(2) s by auto
  moreover have "scan_peak (a # data) m = m \<or> (\<exists>x\<in>set (a # data). scan_peak (a # data) m = \<bar>x\<bar>)"
    using IH m'(3) s by auto
  ultimately show ?case by blast
qed

lemma fold_scan_peak_bounds:
  "m \<le> fold (\<lambda>c m. scan_peak (chan c) m) cs m \<and>
   (\<forall>c\<in>set cs. \<forall>x\<in>set (chan c). \<bar>x\<bar> \<le> fold (\<lambda>c m. scan_peak (chan c) m) cs m) \<and>
   (fold (\<lambda>c m. scan_peak (chan c) m) cs m = m \<or>
    (\<exists>c\<in>set cs. \<exists>x\<in>set (chan c). fold (\<lambda>c m. scan_peak (chan c) m) cs m = \<bar>x\<bar>))"
proof (induction cs arbitrary: m)
  case Nil
  then show ?case by simp
next
  case (Cons a cs)
  define m' where "m' = scan_peak (chan a) m"
  let ?F = "\<lambda>cs m. fold (\<lambda>c m. scan_peak (chan c) m) cs m"
  have s: "?F (a # cs) m = ?F cs m'" by (simp add: m'_def)
  note B = scan_peak_bounds [of m "chan a", folded m'_def]
  note IH = Cons.IH [of m']
  have "m \<le> ?F (a # cs) m" using IH B s by linarith
  moreover have "\<forall>c\<in>set (a # cs). \<forall>x\<in>set (chan c). \<bar>x\<bar> \<le> ?F (a # cs) m"
  proof (intro ballI)
    fix c x assume c: "c \<in> set (a # cs)" and x: "x \<in> set (chan c)"
    show "\<bar>x\<bar> \<le> ?F (a # cs) m"
    proof (cases "c \<in> set cs")
      case True
      then show ?thesis using IH x s by simp
    next
      case False
      then have "c = a" using c by simp
      then have "\<bar>x\<bar> \<le> m'" using B x by blast
      then show ?thesis using IH s by linarith
    qed
  qed
  moreover have "?F (a # cs) m = m \<or> (\<exists>c\<in>set (a # cs). \<exists>x\<in>set (chan c). ?F (a # cs) m = \<bar>x\<bar>)"
    using IH B s by (metis list.set_intros(1) list.set_intros(2))
  ultimately show ?case by blast
qed

lemma max_peak_bounds:
  "0 \<le> max_peak h b \<and>
   (\<forall>c<numberOfChannels b. \<forall>x\<in>set (getChannelData h b c). \<bar>x\<bar> \<le> max_peak h b) \<and>
   (max_peak h b = 0 \<or>
    (\<exists>c<numberOfChannels b. \<exists>x\<in>set (getChannelData h b c). max_peak h b = \<bar>x\<bar>))"
  using fold_scan_peak_bounds [of 0 "getChannelData h b" "[0 ..< numberOfChannels b]"]
  by (auto simp: max_peak_def)

lemma normalize_channels:
  assumes wf: "wf_buffer h b" and P: "0 < max_peak h b"
  shows "length (normalize h b) = length h"
    and "\<forall>c<numberOfChannels b.
           getChannelData (normalize h b) b c =
             map (\<lambda>x. x * ((98 / 100) / max_peak h b)) (getChannelData h b c)"
    and "\<forall>a. a \<in> set (channelData b) \<or> normalize h b ! a = h ! a"
proof -
  let ?nch = "numberOfChannels b"
  let ?ad = "\<lambda>c. channelData b ! c"
  let ?k = "(98 / 100) / max_peak h b"
  let ?body = "\<lambda>(c::nat) (sd::real list) dd. map (\<lambda>x. x * ?k) dd"
  let ?f = "\<lambda>c h'. h'[channelData b ! c := map (\<lambda>x. x * ?k) (getChannelData h' b c)]"
  have R: "normalize h b = fold ?f [0 ..< ?nch] h"
    using P by (simp add: normalize_def Let_def)
  have a1: "\<And>i h'. i \<in> set [0 ..< ?nch] \<Longrightarrow> ?f i h' = h'[?ad i := ?body i (h' ! ?ad i) (h' ! ?ad i)]"
    by (simp add: getChannelData_def)
  have m: "map ?ad [0 ..< ?nch] = channelData b"
    by (rule nth_equalityI) (simp_all add: numberOfChannels_def)
  have a2: "distinct (map ?ad [0 ..< ?nch])" using m wf_bufferD(3) [OF wf] by simp
  have a3: "\<forall>i\<in>set [0 ..< ?nch]. ?ad i < length h" using wf_bufferD(4) [OF wf] by simp
  have a4: "\<forall>i\<in>set [0 ..< ?nch]. \<forall>j\<in>set [0 ..< ?nch]. i \<noteq> j \<longrightarrow> ?ad j \<noteq> ?ad i"
    using wf_bufferD(3) [OF wf] by (simp add: nth_eq_iff_index_eq numberOfChannels_def)
  note F = fold_chan_update [where f = ?f and dst = ?ad and src = ?ad and body = ?body,
      OF a1 a2 a3 a4, folded R]
  have img: "?ad ` set [0 ..< ?nch] = set (channelData b)"
    using m by (metis set_map)
  show "length (normalize h b) = length h" using F by blast
  show "\<forall>c<?nch. getChannelData (normalize h b) b c = map (\<lambda>x. x * ?k) (getChannelData h b c)"
    using F by (simp add: getChannelData_def)
  show "\<forall>a. a \<in> set (channelData b) \<or> normalize h b ! a = h ! a"
    using F img by auto
qed

text \<open>
  The normalizing step on any buffer: the scan finds the greatest absolute value of a
  sample, a positive peak scales every sample by 0.98 / peak, which brings the peak to
  0.98, and a peak of 0 changes nothing.
\<close>

lemma normalize_scales:
  assumes wf: "wf_buffer h b"
  shows "let P = max_peak h b; h' = normalize h b
         in (\<forall>c<numberOfChannels b. \<forall>i<blength b. \<bar>getChannelData h b c ! i\<bar> \<le> P) \<and>
            (P = 0 \<or> (\<exists>c<numberOfChannels b. \<exists>i<blength b. \<bar>getChannelData h b c ! i\<bar> = P)) \<and>
            (if 0 < P
             then (\<forall>c<numberOfChannels b.
                     getChannelData h' b c = map (\<lambda>x. x * ((98 / 100) / P)) (getChannelData h b c)) \<and>
                  max_peak h' b = 98 / 100
             else h' = h)"
proof -
  define P where "P = max_peak h b"
  define h' where "h' = normalize h b"
  let ?nch = "numberOfChannels b"
  note B = max_peak_bounds [of h b, folded P_def]
  have len: "\<And>c. c < ?nch \<Longrightarrow> length (getChannelData h b c) = blength b"
    using wf_bufferD(5) [OF wf] .
  have up: "\<forall>c<?nch. \<forall>i<blength b. \<bar>getChannelData h b c ! i\<bar> \<le> P"
    using B len by (metis nth_mem)
  have att: "P = 0 \<or> (\<exists>c<?nch. \<exists>i<blength b. \<bar>getChannelData h b c ! i\<bar> = P)"
  proof (cases "P = 0")
    case True
    then show ?thesis by simp
  next
    case False
    then obtain c x where c: "c < ?nch" and x: "x \<in> set (getChannelData h b c)" "P = \<bar>x\<bar>"
      using B by blast
    then obtain i where "i < length (getChannelData h b c)" "getChannelData h b c ! i = x"
      by (metis in_set_conv_nth)
    then show ?thesis using c x(2) len by auto
  qed
  have main: "if 0 < P
             then (\<forall>c<?nch. getChannelData h' b c = map (\<lambda>x. x * ((98 / 100) / P)) (getChannelData h b c)) \<and>
                  max_peak h' b = 98 / 100
             else h' = h"
  proof (cases "0 < P")
    case False
    then show ?thesis by (simp add: h'_def normalize_def Let_def P_def)
  next
    case True
    define k where "k = (98 / 100) / P"
    have k0: "0 < k" using True by (simp add: k_def)
    have Pk: "P * k = 98 / 100" using True by (simp add: k_def)
    have N2: "\<forall>c<?nch. getChannelData h' b c = map (\<lambda>x. x * k) (getChannelData h b c)"
      using normalize_channels(2) [OF wf True [unfolded P_def]] unfolding h'_def k_def P_def .
    note B' = max_peak_bounds [of h' b]
    have le: "max_peak h' b \<le> 98 / 100"
    proof (cases "max_peak h' b = 0")
      case True
      then show ?thesis by simp
    next
      case False
      then obtain c y where c: "c < ?nch" and y: "y \<in> set (getChannelData h' b c)" "max_peak h' b = \<bar>y\<bar>"
        using B' by blast
      have "y \<in> (\<lambda>x. x * k) ` set (getChannelData h b c)" using y(1) N2 c by simp
      then obtain x where x: "x \<in> set (getChannelData h b c)" "y = x * k"
        by blast
      have "\<bar>x\<bar> \<le> P" using B c x(1) by blast
      then have "\<bar>x\<bar> * k \<le> P * k" using k0 by (simp add: mult_right_mono)
      moreover have "\<bar>y\<bar> = \<bar>x\<bar> * k" using x(2) k0 by (simp add: abs_mult)
      ultimately show ?thesis using y(2) Pk by linarith
    qed
    have ge: "98 / 100 \<le> max_peak h' b"
    proof -
      obtain c x where c: "c < ?nch" and x: "x \<in> set (getChannelData h b c)" "P = \<bar>x\<bar>"
        using B True by auto
      have "x * k \<in> set (getChannelData h' b c)" using N2 c x(1) by auto
      then have "\<bar>x * k\<bar> \<le> max_peak h' b" using B' c by blast
      moreover have "\<bar>x * k\<bar> = P * k" using x(2) k0 by (simp add: abs_mult)
      ultimately show ?thesis using Pk by linarith
    qed
    have "max_peak h' b = 98 / 100" using le ge by linarith
    then show ?thesis using True N2 by (simp add: k_def)
  qed
  show ?thesis unfolding Let_def P_def [symmetric] h'_def [symmetric]
    by (intro conjI up att main)
qed

section \<open>Freezing: the local gain\<close>

lemma xsucc_Fin: "0 \<le> k \<Longrightarrow> k < 2 ^ 32 \<Longrightarrow> xsucc (Fin k) = Fin (k + 1)"
proof -
  assume a: "0 \<le> k" "k < 2 ^ 32"
  have "(2::int) ^ 32 < 2 ^ 53 - 1" by simp
  hence "\<bar>k + 1\<bar> < 2 ^ 53" using a by linarith
  from floor_dbl_of_int [OF this] show ?thesis by (simp add: xsucc_def)
qed

lemma xless_mono: "xless (Fin j) e \<Longrightarrow> i \<le> j \<Longrightarrow> xless (Fin i) e"
  by (cases e) (simp_all add: xless_def)

text \<open>
  The gain loop from a frame \<open>i\<close> that is not negative ends, and has scaled the frames from
  \<open>i\<close> up to the end frame, within the channel.
\<close>

lemma gain_loop_nth:
  assumes "0 \<le> i" "length data < 2 ^ 32"
  shows "\<exists>out. gain_loop vol e (Fin i) data = Some out \<and> length out = length data \<and>
           (\<forall>j<length data. out ! j =
              (if i \<le> int j \<and> xless (Fin (int j)) e then data ! j * vol else data ! j))"
  using assms
proof (induction "nat (int (length data) - i)" arbitrary: i data)
  case 0
  then have ge: "int (length data) \<le> i" by simp
  then have "gain_loop vol e (Fin i) data = Some data"
    by (subst gain_loop.simps) simp
  moreover have "\<forall>j<length data. \<not> (i \<le> int j \<and> xless (Fin (int j)) e)" using ge by auto
  ultimately show ?case by auto
next
  case (Suc n)
  have L: "int (length data) < 2 ^ 32"
    using Suc.prems(2) by (metis of_nat_less_numeral_power_cancel_iff)
  show ?case
  proof (cases "xless (Fin i) e \<and> i < int (length data)")
    case False
    then have "gain_loop vol e (Fin i) data = Some data"
      by (subst gain_loop.simps) auto
    moreover have "\<forall>j<length data. \<not> (i \<le> int j \<and> xless (Fin (int j)) e)"
    proof (intro allI impI notI)
      fix j assume j: "j < length data" and c: "i \<le> int j \<and> xless (Fin (int j)) e"
      have "xless (Fin i) e" using c xless_mono [of "int j" e i] by blast
      moreover have "i < int (length data)" using c j by linarith
      ultimately show False using False by blast
    qed
    ultimately show ?thesis by auto
  next
    case True
    define d' where "d' = data[nat i := data ! nat i * vol]"
    have i32: "i < 2 ^ 32" using True L by linarith
    have unf: "gain_loop vol e (Fin i) data = gain_loop vol e (Fin (i + 1)) d'"
      using True Suc.prems(1) xsucc_Fin [OF Suc.prems(1) i32]
      by (subst gain_loop.simps) (simp add: d'_def)
    have m: "n = nat (int (length d') - (i + 1))" using Suc.hyps(2) by (simp add: d'_def)
    have p1: "0 \<le> i + 1" using Suc.prems(1) by simp
    have p2: "length d' < 2 ^ 32" using Suc.prems(2) by (simp add: d'_def)
    from Suc.hyps(1) [OF m p1 p2] obtain out where
      o: "gain_loop vol e (Fin (i + 1)) d' = Some out" "length out = length d'"
         "\<forall>j<length d'. out ! j =
            (if i + 1 \<le> int j \<and> xless (Fin (int j)) e then d' ! j * vol else d' ! j)"
      by blast
    have val: "out ! j = (if i \<le> int j \<and> xless (Fin (int j)) e then data ! j * vol else data ! j)"
      if j: "j < length data" for j
    proof -
      have IH: "out ! j = (if i + 1 \<le> int j \<and> xless (Fin (int j)) e then d' ! j * vol else d' ! j)"
        using o(3) j by (simp add: d'_def)
      show ?thesis
      proof (cases "int j = i")
        case eq: True
        then have "nat i = j" by simp
        then have "d' ! j = data ! j * vol" using j by (simp add: d'_def)
        moreover have "xless (Fin (int j)) e" using True eq by simp
        ultimately show ?thesis using IH eq by simp
      next
        case ne: False
        then have "nat i \<noteq> j" using Suc.prems(1) by linarith
        then have "d' ! j = data ! j" by (simp add: d'_def)
        moreover have "i + 1 \<le> int j \<longleftrightarrow> i \<le> int j" using ne by linarith
        ultimately show ?thesis using IH by simp
      qed
    qed
    have "length out = length data" using o(2) by (simp add: d'_def)
    moreover have "gain_loop vol e (Fin i) data = Some out" using unf o(1) by simp
    moreover have "\<forall>j<length data. out ! j =
              (if i \<le> int j \<and> xless (Fin (int j)) e then data ! j * vol else data ! j)"
      using val by blast
    ultimately show ?thesis by blast
  qed
qed

lemma local_gain_channels:
  assumes wf: "wf_buffer h b"
      and G: "\<forall>c<numberOfChannels b.
                gain_loop vol (floor_dbl (rend r * sampleRate b)) (floor_dbl (rstart r * sampleRate b))
                  (getChannelData h b c) = Some (G c)"
  shows "\<exists>h'. local_gain h b r vol = Some h' \<and> length h' = length h \<and>
           (\<forall>c<numberOfChannels b. getChannelData h' b c = G c) \<and>
           (\<forall>a. a \<in> set (channelData b) \<or> h' ! a = h ! a)"
proof -
  let ?nch = "numberOfChannels b"
  let ?ad = "\<lambda>c. channelData b ! c"
  let ?body = "\<lambda>(c::nat) (sd::real list) dd.
                 gain_loop vol (floor_dbl (rend r * sampleRate b)) (floor_dbl (rstart r * sampleRate b)) dd"
  let ?f = "\<lambda>c h'. case gain_loop vol (floor_dbl (rend r * sampleRate b))
                           (floor_dbl (rstart r * sampleRate b)) (getChannelData h' b c) of
                      None \<Rightarrow> None
                    | Some data \<Rightarrow> Some (h'[channelData b ! c := data])"
  have R: "local_gain h b r vol = foldO ?f [0 ..< ?nch] h"
    by (simp add: local_gain_def Let_def)
  have a1: "\<And>i h'. i \<in> set [0 ..< ?nch] \<Longrightarrow>
              ?f i h' = (case ?body i (h' ! ?ad i) (h' ! ?ad i) of
                           None \<Rightarrow> None | Some v \<Rightarrow> Some (h'[?ad i := v]))"
    by (simp add: getChannelData_def)
  have m: "map ?ad [0 ..< ?nch] = channelData b"
    by (rule nth_equalityI) (simp_all add: numberOfChannels_def)
  have a2: "distinct (map ?ad [0 ..< ?nch])" using m wf_bufferD(3) [OF wf] by simp
  have a3: "\<forall>i\<in>set [0 ..< ?nch]. ?ad i < length h" using wf_bufferD(4) [OF wf] by simp
  have a4: "\<forall>i\<in>set [0 ..< ?nch]. \<forall>j\<in>set [0 ..< ?nch]. i \<noteq> j \<longrightarrow> ?ad j \<noteq> ?ad i"
    using wf_bufferD(3) [OF wf] by (simp add: nth_eq_iff_index_eq numberOfChannels_def)
  have a5: "\<forall>i\<in>set [0 ..< ?nch]. ?body i (h ! ?ad i) (h ! ?ad i) = Some (G i)"
    using G by (simp add: getChannelData_def)
  from foldO_chan_update [where f = ?f and dst = ?ad and src = ?ad and body = ?body and G = G,
      OF a1 a2 a3 a4 a5]
  obtain h' where h': "foldO ?f [0 ..< ?nch] h = Some h'" "length h' = length h"
      "\<forall>i\<in>set [0 ..< ?nch]. h' ! ?ad i = G i"
      "\<forall>a. a \<notin> ?ad ` set [0 ..< ?nch] \<longrightarrow> h' ! a = h ! a"
    by blast
  have img: "?ad ` set [0 ..< ?nch] = set (channelData b)"
    using m by (metis set_map)
  have "local_gain h b r vol = Some h'" using R h'(1) by simp
  moreover have "\<forall>c<?nch. getChannelData h' b c = G c"
    using h'(3) by (simp add: getChannelData_def)
  moreover have "\<forall>a. a \<in> set (channelData b) \<or> h' ! a = h ! a"
    using h'(4) img by auto
  ultimately show ?thesis using h'(2) by blast
qed

lemma processRange_ignores_volume:
  "processRange render h b t s e (ps\<lparr>volume := v\<rparr>) = processRange render h b t s e ps"
proof -
  have "effect_graph x (ps\<lparr>volume := v\<rparr>) = effect_graph x ps" for x
    by (simp add: effect_graph_def)
  then have "renderOfflineEffect render h b s e x (ps\<lparr>volume := v\<rparr>) =
             renderOfflineEffect render h b s e x ps" for x
    by (simp add: renderOfflineEffect_def Let_def cong: sum.case_cong prod.case_cong if_cong)
  then show ?thesis by (simp add: processRange_def split: option.splits)
qed

text \<open>
  C9. On freeze with a preview volume set, once the offline processing has returned its
  buffer, let s = Math.floor(regionStart * sampleRate) and
  e = Math.floor(regionEnd * sampleRate) be the frames that the program computes, with the
  products rounded to doubles, for a region that starts at a frame s \<ge> 0. The gain loop
  ends; on every channel of the buffer every sample at a frame i with s \<le> i < e, within
  the channel, is multiplied by the volume, and every other sample, and every other array
  of the store, is as the offline processing left it. The buffer becomes the player's
  buffer and the preview state is cleared. The volume is no part of the offline
  processing: with the volume removed from the parameters it returns the same result.
\<close>

theorem freeze_applies_local_gain:
  assumes ar: "activeRegion p = Some r" and ob: "originalBuffer p = Some buffer"
      and vol: "volume (effectParams p) = Some vol"
      and pr: "processRange render h buffer (currentEffectType p) (rstart r) (rend r) (effectParams p)
                 = Inr (h1, nb, numeric)"
      and wf1: "wf_buffer h1 nb" and N: "blength nb < 2 ^ 32"
      and fs: "floor_dbl (rstart r * sampleRate nb) = Fin s"
      and fe: "floor_dbl (rend r * sampleRate nb) = Fin e"
      and s0: "0 \<le> s"
  shows "\<exists>h2. freezeCurrentEffect render h p =
                Some (h2, p\<lparr>activeRegion := None, currentEffectType := None, originalBuffer := Some nb\<rparr>,
                      numeric) \<and>
              length h2 = length h1 \<and>
              (\<forall>a<length h1. a \<in> set (channelData nb) \<or> h2 ! a = h1 ! a) \<and>
              (\<forall>c<numberOfChannels nb. \<forall>i<blength nb.
                 getChannelData h2 nb c ! i =
                   (if s \<le> int i \<and> int i < e
                    then getChannelData h1 nb c ! i * vol
                    else getChannelData h1 nb c ! i)) \<and>
              processRange render h buffer (currentEffectType p) (rstart r) (rend r)
                ((effectParams p)\<lparr>volume := None\<rparr>) = Inr (h1, nb, numeric)"
proof -
  let ?nch = "numberOfChannels nb"
  have each: "\<exists>out. c < ?nch \<longrightarrow>
                gain_loop vol (Fin e) (Fin s) (getChannelData h1 nb c) = Some out \<and>
                (\<forall>j<blength nb. out ! j =
                   (if s \<le> int j \<and> int j < e then getChannelData h1 nb c ! j * vol
                    else getChannelData h1 nb c ! j))" for c
  proof (cases "c < ?nch")
    case False
    then show ?thesis by simp
  next
    case c: True
    have len: "length (getChannelData h1 nb c) = blength nb" using wf_bufferD(5) [OF wf1 c] .
    have l32: "length (getChannelData h1 nb c) < 2 ^ 32" using N len by simp
    from gain_loop_nth [OF s0 l32, of vol "Fin e"] show ?thesis unfolding len by auto
  qed
  have "\<forall>c. \<exists>out. c < ?nch \<longrightarrow>
                gain_loop vol (Fin e) (Fin s) (getChannelData h1 nb c) = Some out \<and>
                (\<forall>j<blength nb. out ! j =
                   (if s \<le> int j \<and> int j < e then getChannelData h1 nb c ! j * vol
                    else getChannelData h1 nb c ! j))"
    by (intro allI each)
  from choice [OF this] obtain G where
    G: "\<forall>c. c < ?nch \<longrightarrow>
          gain_loop vol (Fin e) (Fin s) (getChannelData h1 nb c) = Some (G c) \<and>
          (\<forall>j<blength nb. G c ! j =
             (if s \<le> int j \<and> int j < e then getChannelData h1 nb c ! j * vol
              else getChannelData h1 nb c ! j))"
    by blast
  have G1: "\<forall>c<?nch. gain_loop vol (floor_dbl (rend r * sampleRate nb))
               (floor_dbl (rstart r * sampleRate nb)) (getChannelData h1 nb c) = Some (G c)"
    using G unfolding fs fe by blast
  from local_gain_channels [OF wf1 G1] obtain h2 where
    lg: "local_gain h1 nb r vol = Some h2" and l: "length h2 = length h1"
    and ch: "\<forall>c<?nch. getChannelData h2 nb c = G c"
    and ot: "\<forall>a. a \<in> set (channelData nb) \<or> h2 ! a = h1 ! a"
    by blast
  have res: "freezeCurrentEffect render h p =
                Some (h2, p\<lparr>activeRegion := None, currentEffectType := None, originalBuffer := Some nb\<rparr>,
                      numeric)"
    using ar ob vol pr lg by (simp add: freezeCurrentEffect_def closeEffectPanel_def)
  have keep: "\<forall>a<length h1. a \<in> set (channelData nb) \<or> h2 ! a = h1 ! a"
    using ot by blast
  have chan: "\<forall>c<?nch. \<forall>i<blength nb.
                 getChannelData h2 nb c ! i =
                   (if s \<le> int i \<and> int i < e
                    then getChannelData h1 nb c ! i * vol
                    else getChannelData h1 nb c ! i)"
    using ch G by simp
  have nov: "processRange render h buffer (currentEffectType p) (rstart r) (rend r)
                ((effectParams p)\<lparr>volume := None\<rparr>) = Inr (h1, nb, numeric)"
    using pr by (simp add: processRange_ignores_volume)
  show ?thesis by (rule exI [of _ h2]) (intro conjI res l keep chan nov)
qed

theorem freeze_applies_local_gain_witness:
  "(let r = \<lparr>rstart = 1 / 32768, rend = 5 / 65536\<rparr>;
        ps = \<lparr>amount = None, time = Some (1 / 4), feedback = Some (2 / 5), bits = None,
              normFreq = None, volume = Some (1 / 2)\<rparr>;
        p = \<lparr>originalBuffer = Some buffer1, activeRegion = Some r,
             currentEffectType = Some ''delay'', effectParams = ps, eqGains = [], masterGain = None\<rparr>;
        h1 = [[1 / 2, - 1 / 4, 1 / 8, - 1], [- 1 / 4, 1 / 8], [1, 1], [1 / 2, 1, 1, - 1]];
        nb = \<lparr>sampleRate = 44100, blength = 4, channelData = [3]\<rparr>
    in processRange (flat_render 1) store1 buffer1 (currentEffectType p) (rstart r) (rend r)
         (effectParams p) = Inr (h1, nb, True) \<and>
       wf_buffer h1 nb \<and> blength nb < 2 ^ 32 \<and>
       floor_dbl (rstart r * sampleRate nb) = Fin 1 \<and>
       floor_dbl (rend r * sampleRate nb) = Fin 3 \<and> (0::int) \<le> 1 \<and>
       (\<exists>h2. freezeCurrentEffect (flat_render 1) store1 p =
               Some (h2, p\<lparr>activeRegion := None, currentEffectType := None, originalBuffer := Some nb\<rparr>, True) \<and>
             getChannelData h2 nb 0 ! 0 = 1 / 2 \<and> getChannelData h2 nb 0 ! 1 = 1 / 2 \<and>
             getChannelData h2 nb 0 ! 2 = 1 / 2 \<and> getChannelData h2 nb 0 ! 3 = - 1 \<and>
             h2 ! 0 = [1 / 2, - 1 / 4, 1 / 8, - 1]))"
proof -
  define r where "r = \<lparr>rstart = 1 / 32768, rend = 5 / 65536 :: real\<rparr>"
  define ps where "ps = \<lparr>amount = None, time = Some (1 / 4), feedback = Some (2 / 5), bits = None,
              normFreq = None, volume = Some (1 / 2 :: real)\<rparr>"
  define p where "p = \<lparr>originalBuffer = Some buffer1, activeRegion = Some r,
             currentEffectType = Some ''delay'', effectParams = ps, eqGains = [], masterGain = None\<rparr>"
  define h1 where "h1 = [[1 / 2, - 1 / 4, 1 / 8, - 1], [- 1 / 4, 1 / 8], [1, 1], [1 / 2, 1, 1, - 1 :: real]]"
  define nb where "nb = \<lparr>sampleRate = 44100, blength = 4, channelData = [3]\<rparr>"
  have a: "activeRegion p = Some r" "originalBuffer p = Some buffer1"
          "volume (effectParams p) = Some (1 / 2)"
    by (simp_all add: p_def ps_def)
  have f1: "floor_dbl (1 / 32768 * sampleRate buffer1) = Fin 1"
           "floor_dbl (5 / 65536 * sampleRate buffer1) = Fin 3"
    unfolding buffer1_simps by (rule frames_1_4(1), rule frames_3_6(1))
  have x: "xsub (Fin 3) (Fin 1) = Fin 2" using xsub_Fin [of 3 1] by simp
  have ro: "renderOfflineEffect (flat_render 1) store1 buffer1 (1 / 32768) (5 / 65536) ''delay'' ps
              = Inr (h1, nb, True)"
    unfolding renderOfflineEffect_def Let_def f1 x
    by (simp add: createBuffer_def to_ulong_def buffer1_def store1_def
          copyToChannel_def startRendering_def flat_render_def ta_set_def ta_slice_def
          rel_index_def numberOfChannels_def getChannelData_def effect_graph_def
          h1_def nb_def numeral_2_eq_2)
  have pr: "processRange (flat_render 1) store1 buffer1 (currentEffectType p) (rstart r) (rend r)
              (effectParams p) = Inr (h1, nb, True)"
    using ro by (simp add: processRange_def p_def r_def)
  have wf: "wf_buffer h1 nb" by (simp add: wf_buffer_def h1_def nb_def)
  have N: "blength nb < 2 ^ 32" by (simp add: nb_def)
  have f: "floor_dbl (rstart r * sampleRate nb) = Fin 1" "floor_dbl (rend r * sampleRate nb) = Fin 3"
    using f1 by (simp_all add: r_def nb_def buffer1_simps)
  have s0: "(0::int) \<le> 1" by simp
  from freeze_applies_local_gain [OF a pr wf N f s0] obtain h2 where
    fz: "freezeCurrentEffect (flat_render 1) store1 p =
               Some (h2, p\<lparr>activeRegion := None, currentEffectType := None, originalBuffer := Some nb\<rparr>, True)"
    and k: "\<forall>a<length h1. a \<in> set (channelData nb) \<or> h2 ! a = h1 ! a"
    and c: "\<forall>c<numberOfChannels nb. \<forall>i<blength nb.
                 getChannelData h2 nb c ! i =
                   (if 1 \<le> int i \<and> int i < 3
                    then getChannelData h1 nb c ! i * (1 / 2)
                    else getChannelData h1 nb c ! i)"
    by blast
  have v: "getChannelData h2 nb 0 ! i =
             (if 1 \<le> int i \<and> int i < 3 then getChannelData h1 nb 0 ! i * (1 / 2)
              else getChannelData h1 nb 0 ! i)" if "i < 4" for i
    using c [rule_format, of 0 i] that by (simp add: nb_def numberOfChannels_def)
  have "getChannelData h2 nb 0 ! 0 = 1 / 2" using v [of 0] by (simp add: getChannelData_def h1_def nb_def)
  moreover have "getChannelData h2 nb 0 ! 1 = 1 / 2" using v [of 1] by (simp add: getChannelData_def h1_def nb_def)
  moreover have "getChannelData h2 nb 0 ! 2 = 1 / 2" using v [of 2] by (simp add: getChannelData_def h1_def nb_def)
  moreover have "getChannelData h2 nb 0 ! 3 = - 1" using v [of 3] by (simp add: getChannelData_def h1_def nb_def)
  moreover have "h2 ! 0 = [1 / 2, - 1 / 4, 1 / 8, - 1]" using k [rule_format, of 0] by (simp add: h1_def nb_def)
  ultimately show ?thesis
    unfolding Let_def r_def [symmetric] ps_def [symmetric] p_def [symmetric]
      h1_def [symmetric] nb_def [symmetric]
    using pr wf N f s0 fz by blast
qed

section \<open>WAV encoding\<close>

lemma length_int_le [simp]: "length (int_le n v) = n"
  by (simp add: int_le_def)

lemma int_le_2: "int_le 2 v = [word_of_int v, word_of_int (v div 256)]"
  by (simp add: int_le_def upt_rec)

lemma int_le_4:
  "int_le 4 v = [word_of_int v, word_of_int (v div 256), word_of_int (v div 65536),
                 word_of_int (v div 16777216)]"
  by (simp add: int_le_def upt_rec)

lemma unat_byte: "unat (word_of_int x :: byte) = nat (x mod 256)"
  by (simp add: unsigned_of_int take_bit_eq_mod)

lemma rd_le_int_le_2:
  assumes "take 2 (drop off bs) = int_le 2 v"
  shows "rd_le bs off 2 = nat (v mod 65536)"
proof -
  have "v mod 65536 = v mod 256 + 256 * (v div 256 mod 256)"
    using zmod_zmult2_eq [of 256 v 256] by simp
  moreover have "0 \<le> v mod 256" "0 \<le> v div 256 mod 256" by simp_all
  ultimately have "nat (v mod 65536) = nat (v mod 256) + 256 * nat (v div 256 mod 256)"
    by (simp add: nat_add_distrib nat_mult_distrib)
  then show ?thesis by (simp add: rd_le_def assms int_le_2 unat_byte)
qed

lemma rd_le_int_le_4:
  assumes "take 4 (drop off bs) = int_le 4 v"
  shows "rd_le bs off 4 = nat (v mod 4294967296)"
proof -
  define a where "a = v mod 256"
  define b where "b = v div 256 mod 256"
  define c where "c = v div 65536 mod 256"
  define d where "d = v div 16777216 mod 256"
  have 1: "v mod 65536 = a + 256 * b" using zmod_zmult2_eq [of 256 v 256] by (simp add: a_def b_def)
  have 2: "v div 65536 mod 65536 = c + 256 * d"
    using zmod_zmult2_eq [of 256 "v div 65536" 256] zdiv_zmult2_eq [of 256 v 65536] by (simp add: c_def d_def)
  have 3: "v mod 4294967296 = v mod 65536 + 65536 * (v div 65536 mod 65536)"
    using zmod_zmult2_eq [of 65536 v 65536] by simp
  have nn: "0 \<le> a" "0 \<le> b" "0 \<le> c" "0 \<le> d" by (simp_all add: a_def b_def c_def d_def)
  have "v mod 4294967296 = a + 256 * (b + 256 * (c + 256 * d))" using 1 2 3 by simp
  then have "nat (v mod 4294967296) = nat a + 256 * (nat b + 256 * (nat c + 256 * nat d))"
    using nn by (simp add: nat_add_distrib nat_mult_distrib)
  then show ?thesis
    by (simp add: rd_le_def assms int_le_4 unat_byte a_def b_def c_def d_def)
qed

lemma rd_int16_int_le:
  assumes "take 2 (drop off bs) = int_le 2 v" "- 32768 \<le> v" "v \<le> 32767"
  shows "rd_int16 bs off = v"
proof -
  have r: "int (rd_le bs off 2) = v mod 65536" using rd_le_int_le_2 [OF assms(1)] by simp
  show ?thesis
  proof (cases "0 \<le> v")
    case True
    then have "v mod 65536 = v" using assms(3) by simp
    then show ?thesis using r True assms(3) by (simp add: rd_int16_def Let_def)
  next
    case False
    then have "(v + 65536) mod 65536 = v + 65536"
      using assms(2) by (intro mod_pos_pos_trivial) linarith+
    moreover have "(v + 65536) mod 65536 = v mod 65536" by simp
    ultimately have "v mod 65536 = v + 65536" by simp
    then show ?thesis using r False assms(2) by (simp add: rd_int16_def Let_def)
  qed
qed

lemma js_trunc_of_nat [simp]: "js_trunc (real n) = int n"
  by (simp add: js_trunc_def)

lemma clamp_sample_range: "- 1 \<le> clamp_sample s \<and> clamp_sample s \<le> 1"
  by (simp add: clamp_sample_def)

lemma scale16_range:
  assumes "- 1 \<le> s" "s \<le> 1"
  shows "- 32768 \<le> js_trunc (scale16 s) \<and> js_trunc (scale16 s) \<le> 32767"
proof (cases "s < 0")
  case True
  then have "- 32768 \<le> s * 32768" "s * 32768 < 0" using assms by simp_all
  then have "- 32768 \<le> \<lceil>s * 32768\<rceil>" "\<lceil>s * 32768\<rceil> \<le> 0" by (simp_all add: le_ceiling_iff ceiling_le_iff)
  then show ?thesis using True by (simp add: scale16_def js_trunc_def)
next
  case False
  then have "0 \<le> s * 32767" "s * 32767 \<le> 32767" using assms by simp_all
  then have "0 \<le> \<lfloor>s * 32767\<rfloor>" "\<lfloor>s * 32767\<rfloor> \<le> 32767" by (simp_all add: floor_le_iff) 
  then show ?thesis using False by (simp add: scale16_def js_trunc_def)
qed

lemma view_set_start:
  assumes "length bs \<le> m"
  shows "view_set (replicate m z) 0 bs = bs @ replicate (m - length bs) z"
  using assms by (simp add: view_set_def)

lemma view_set_step:
  assumes "length xs = off" "length bs \<le> m"
  shows "view_set (xs @ replicate m z) off bs = (xs @ bs) @ replicate (m - length bs) z"
  using assms by (simp add: view_set_def)

lemma wav_header_layout:
  "setUint32 (writeString (setUint16 (setUint16 (setUint32 (setUint32 (setUint16 (setUint16
     (setUint32 (writeString (writeString (setUint32 (writeString (replicate (44 + L) 0) 0 ''RIFF'')
        4 x2) 8 ''WAVE'') 12 ''fmt '') 16 x5) 20 x6) 22 x7) 24 x8) 28 x9) 32 x10) 34 x11)
        36 ''data'') 40 x13
   = (map of_char ''RIFF'' @ int_le 4 (js_trunc x2) @ map of_char ''WAVE'' @ map of_char ''fmt '' @
      int_le 4 (js_trunc x5) @ int_le 2 (js_trunc x6) @ int_le 2 (js_trunc x7) @
      int_le 4 (js_trunc x8) @ int_le 4 (js_trunc x9) @ int_le 2 (js_trunc x10) @
      int_le 2 (js_trunc x11) @ map of_char ''data'' @ int_le 4 (js_trunc x13)) @ replicate L 0"
  unfolding writeString_def setUint16_def setUint32_def
  apply (subst view_set_start, simp)
  apply (subst view_set_step, simp, simp)
  apply (subst view_set_step, simp, simp)
  apply (subst view_set_step, simp, simp)
  apply (subst view_set_step, simp, simp)
  apply (subst view_set_step, simp, simp)
  apply (subst view_set_step, simp, simp)
  apply (subst view_set_step, simp, simp)
  apply (subst view_set_step, simp, simp)
  apply (subst view_set_step, simp, simp)
  apply (subst view_set_step, simp, simp)
  apply (subst view_set_step, simp, simp)
  apply (subst view_set_step, simp, simp)
  apply simp
  done

lemma length_concat_blocks:
  assumes "\<forall>x\<in>set xs. length (f x) = k"
  shows "length (concat (map f xs)) = length xs * k"
  using assms by (induction xs) simp_all

lemma concat_block:
  assumes "\<forall>j<n. length (f j) = k" "i < n"
  shows "take k (drop (i * k) (concat (map f [0 ..< n]))) = f i"
  using assms
proof (induction n)
  case 0
  then show ?case by simp
next
  case (Suc n)
  let ?A = "concat (map f [0 ..< n])"
  have lA: "length ?A = n * k" using Suc.prems(1) length_concat_blocks [of "[0 ..< n]" f k] by simp
  have c: "concat (map f [0 ..< Suc n]) = ?A @ f n" by simp
  show ?case
  proof (cases "i < n")
    case True
    then have IH: "take k (drop (i * k) ?A) = f i" using Suc by simp
    have "Suc i * k \<le> n * k" using True by (simp add: Suc_leI mult_le_mono1 del: mult_Suc)
    then have "i * k + k \<le> length ?A" using lA by simp
    then have "take k (drop (i * k) (?A @ f n)) = take k (drop (i * k) ?A)" by simp
    then show ?thesis using IH c by simp
  next
    case False
    then have "i = n" using Suc.prems(2) by simp
    then show ?thesis using c lA Suc.prems(1) by simp
  qed
qed

lemma bufferToWave_structure:
  "bufferToWave h abuffer len =
     (map of_char ''RIFF'' @
      int_le 4 (int (36 + wave_length abuffer len * numberOfChannels abuffer * 2)) @
      map of_char ''WAVE'' @ map of_char ''fmt '' @
      int_le 4 16 @ int_le 2 1 @ int_le 2 (int (numberOfChannels abuffer)) @
      int_le 4 (js_trunc (sampleRate abuffer)) @
      int_le 4 (js_trunc (sampleRate abuffer * 2 * real (numberOfChannels abuffer))) @
      int_le 2 (int (numberOfChannels abuffer * 2)) @ int_le 2 16 @
      map of_char ''data'' @
      int_le 4 (int (wave_length abuffer len * numberOfChannels abuffer * 2))) @
     concat (map (\<lambda>i. concat (map (\<lambda>ch. int_le 2 (frame_value (getChannelData h abuffer ch) i))
                                    [0 ..< numberOfChannels abuffer]))
                 [0 ..< wave_length abuffer len])"
proof -
  let ?nch = "numberOfChannels abuffer"
  let ?fr = "wave_length abuffer len"
  let ?L = "?fr * ?nch * 2"
  let ?data = "concat (map (\<lambda>i. concat (map (\<lambda>ch. int_le 2 (frame_value (getChannelData h abuffer ch) i))
                                    [0 ..< ?nch])) [0 ..< ?fr])"
  let ?data' = "concat (map (\<lambda>i. concat (map (\<lambda>ch. int_le 2
                    (frame_value (map (getChannelData h abuffer) [0 ..< ?nch] ! ch) i))
                                    [0 ..< ?nch])) [0 ..< ?fr])"
  have inner: "\<And>i. (map (\<lambda>ch. int_le 2 (frame_value (map (getChannelData h abuffer) [0 ..< ?nch] ! ch) i)) [0 ..< ?nch])
                 = (map (\<lambda>ch. int_le 2 (frame_value (getChannelData h abuffer ch) i)) [0 ..< ?nch])"
    by (rule map_cong) simp_all
  have d: "?data' = ?data" by (simp only: inner)
  have blk: "\<And>i. length (concat (map (\<lambda>ch. int_le 2 (frame_value (getChannelData h abuffer ch) i)) [0 ..< ?nch]))
               = ?nch * 2"
    by (subst length_concat_blocks [where k = 2]) simp_all
  have ld: "length ?data = ?L"
    by (subst length_concat_blocks [where k = "?nch * 2"]) (simp_all add: blk)
  have t: "js_trunc 16 = 16" "js_trunc 1 = 1" by (simp_all add: js_trunc_def)
  have "bufferToWave h abuffer len =
          view_set (setUint32 (writeString (setUint16 (setUint16 (setUint32 (setUint32 (setUint16 (setUint16
     (setUint32 (writeString (writeString (setUint32 (writeString (replicate (44 + ?L) 0) 0 ''RIFF'')
        4 (real (36 + ?L))) 8 ''WAVE'') 12 ''fmt '') 16 16) 20 1) 22 (real ?nch)) 24 (sampleRate abuffer))
        28 (sampleRate abuffer * 2 * real ?nch)) 32 (real (?nch * 2))) 34 16)
        36 ''data'') 40 (real ?L)) 44 ?data'"
    unfolding bufferToWave_def Let_def ..
  also have "\<dots> = view_set ((map of_char ''RIFF'' @ int_le 4 (int (36 + ?L)) @
      map of_char ''WAVE'' @ map of_char ''fmt '' @
      int_le 4 16 @ int_le 2 1 @ int_le 2 (int ?nch) @
      int_le 4 (js_trunc (sampleRate abuffer)) @
      int_le 4 (js_trunc (sampleRate abuffer * 2 * real ?nch)) @
      int_le 2 (int (?nch * 2)) @ int_le 2 16 @
      map of_char ''data'' @ int_le 4 (int ?L)) @ replicate ?L 0) 44 ?data"
    unfolding wav_header_layout d by (simp only: js_trunc_of_nat t)
  also have "\<dots> = (map of_char ''RIFF'' @ int_le 4 (int (36 + ?L)) @
      map of_char ''WAVE'' @ map of_char ''fmt '' @
      int_le 4 16 @ int_le 2 1 @ int_le 2 (int ?nch) @
      int_le 4 (js_trunc (sampleRate abuffer)) @
      int_le 4 (js_trunc (sampleRate abuffer * 2 * real ?nch)) @
      int_le 2 (int (?nch * 2)) @ int_le 2 16 @
      map of_char ''data'' @ int_le 4 (int ?L)) @ ?data"
    by (subst view_set_step) (simp_all add: ld)
  finally show ?thesis .
qed


lemma nat_int_mod:
  "nat (int n mod 4294967296) = n mod 4294967296" "nat (int n mod 65536) = n mod 65536"
  by (simp_all add: nat_mod_distrib)

lemma bufferToWave_sizes:
  "length (bufferToWave h abuffer len) = 44 + wave_length abuffer len * numberOfChannels abuffer * 2"
  "rd_le (bufferToWave h abuffer len) 4 4 =
     (36 + wave_length abuffer len * numberOfChannels abuffer * 2) mod 4294967296"
  "rd_le (bufferToWave h abuffer len) 40 4 =
     (wave_length abuffer len * numberOfChannels abuffer * 2) mod 4294967296"
proof -
  let ?nch = "numberOfChannels abuffer"
  let ?L = "wave_length abuffer len * ?nch * 2"
  define block where "block = (\<lambda>i. concat (map (\<lambda>ch. int_le 2 (frame_value (getChannelData h abuffer ch) i))
                                    [0 ..< ?nch]))"
  define data where "data = concat (map block [0 ..< wave_length abuffer len])"
  have lb: "\<And>i. length (block i) = ?nch * 2"
    unfolding block_def by (subst length_concat_blocks [where k = 2]) simp_all
  have ld: "length data = ?L"
    unfolding data_def by (subst length_concat_blocks [where k = "?nch * 2"]) (simp_all add: lb)
  note S = bufferToWave_structure [of h abuffer len, folded block_def, folded data_def]
  show "length (bufferToWave h abuffer len) = 44 + ?L" by (simp add: S ld)
  have "take 4 (drop 4 (bufferToWave h abuffer len)) = int_le 4 (int (36 + ?L))" by (simp add: S)
  from rd_le_int_le_4 [OF this]
  show "rd_le (bufferToWave h abuffer len) 4 4 = (36 + ?L) mod 4294967296"
    by (simp only: nat_int_mod)
  have "take 4 (drop 40 (bufferToWave h abuffer len)) = int_le 4 (int ?L)" by (simp add: S)
  from rd_le_int_le_4 [OF this]
  show "rd_le (bufferToWave h abuffer len) 40 4 = ?L mod 4294967296"
    by (simp only: nat_int_mod)
qed

text \<open>
  C4, with the size fields as 32-bit values. The encoder writes 44 + L bytes, where
  L = 2 \<times> frames \<times> channels and
  frames is the frame count given, or the length of the buffer when none or 0 is given:
  the header RIFF, size, WAVE, fmt, 16, PCM = 1, the channel count, the sample rate, the
  byte rate, the block align, 16 bits, data, size, and then the samples, frame after
  frame and channel after channel within a frame. The two size fields hold 36 + L and L
  modulo 2^32, so they are the sizes themselves whenever 36 + L is below 2^32. A sample is
  clamped to [- 1, 1] and the clamped sample s is stored as the 16-bit value of s 0x8000
  when s < 0 and of s 0x7FFF otherwise, truncated towards zero, which always fits in 16
  bits; a frame beyond the end of the buffer is stored as 0.
\<close>

theorem bufferToWave_layout:
  assumes wf: "wf_buffer h abuffer"
  shows "let nch = numberOfChannels abuffer; frames = wave_length abuffer len;
             L = frames * nch * 2; out = bufferToWave h abuffer len
         in length out = 44 + L \<and>
            take 4 out = map of_char ''RIFF'' \<and>
            take 4 (drop 8 out) = map of_char ''WAVE'' \<and>
            take 4 (drop 12 out) = map of_char ''fmt '' \<and>
            take 4 (drop 36 out) = map of_char ''data'' \<and>
            rd_le out 4 4 = (36 + L) mod 2 ^ 32 \<and>
            rd_le out 40 4 = L mod 2 ^ 32 \<and>
            (36 + L < 2 ^ 32 \<longrightarrow> rd_le out 4 4 = 36 + L \<and> rd_le out 40 4 = L) \<and>
            rd_le out 16 4 = 16 \<and> rd_le out 20 2 = 1 \<and>
            rd_le out 22 2 = nch mod 2 ^ 16 \<and>
            rd_le out 24 4 = nat (js_trunc (sampleRate abuffer) mod 2 ^ 32) \<and>
            rd_le out 28 4 = nat (js_trunc (sampleRate abuffer * 2 * real nch) mod 2 ^ 32) \<and>
            rd_le out 32 2 = (nch * 2) mod 2 ^ 16 \<and>
            rd_le out 34 2 = 16 \<and>
            (\<forall>i<frames. \<forall>ch<nch.
               rd_int16 out (44 + 2 * (i * nch + ch)) =
                 (if i < blength abuffer
                  then js_trunc (scale16 (clamp_sample (getChannelData h abuffer ch ! i)))
                  else 0) \<and>
               - 1 \<le> clamp_sample (getChannelData h abuffer ch ! i) \<and>
               clamp_sample (getChannelData h abuffer ch ! i) \<le> 1 \<and>
               - 32768 \<le> js_trunc (scale16 (clamp_sample (getChannelData h abuffer ch ! i))) \<and>
               js_trunc (scale16 (clamp_sample (getChannelData h abuffer ch ! i))) \<le> 32767)"
proof -
  define nch where "nch = numberOfChannels abuffer"
  define frames where "frames = wave_length abuffer len"
  define L where "L = frames * nch * 2"
  define out where "out = bufferToWave h abuffer len"
  define block where "block = (\<lambda>i. concat (map (\<lambda>ch. int_le 2 (frame_value (getChannelData h abuffer ch) i))
                                    [0 ..< nch]))"
  define data where "data = concat (map block [0 ..< frames])"
  define p1 :: "byte list" where "p1 = map of_char ''RIFF''"
  define p2 where "p2 = int_le 4 (int (36 + L))"
  define p3 :: "byte list" where "p3 = map of_char ''WAVE''"
  define p4 :: "byte list" where "p4 = map of_char ''fmt ''"
  define p5 where "p5 = int_le 4 16"
  define p6 where "p6 = int_le 2 1"
  define p7 where "p7 = int_le 2 (int nch)"
  define p8 where "p8 = int_le 4 (js_trunc (sampleRate abuffer))"
  define p9 where "p9 = int_le 4 (js_trunc (sampleRate abuffer * 2 * real nch))"
  define p10 where "p10 = int_le 2 (int (nch * 2))"
  define p11 where "p11 = int_le 2 16"
  define p12 :: "byte list" where "p12 = map of_char ''data''"
  define p13 where "p13 = int_le 4 (int L)"
  have out: "out = p1 @ p2 @ p3 @ p4 @ p5 @ p6 @ p7 @ p8 @ p9 @ p10 @ p11 @ p12 @ p13 @ data"
    unfolding out_def bufferToWave_structure
    by (simp add: p1_def p2_def p3_def p4_def p5_def p6_def p7_def p8_def p9_def p10_def p11_def
          p12_def p13_def data_def block_def nch_def frames_def L_def)
  have l: "length p1 = 4" "length p2 = 4" "length p3 = 4" "length p4 = 4" "length p5 = 4"
          "length p6 = 2" "length p7 = 2" "length p8 = 4" "length p9 = 4" "length p10 = 2"
          "length p11 = 2" "length p12 = 4" "length p13 = 4"
    by (simp_all add: p1_def p2_def p3_def p4_def p5_def p6_def p7_def p8_def p9_def p10_def
          p11_def p12_def p13_def)
  have lb: "\<And>i. length (block i) = nch * 2"
    unfolding block_def by (subst length_concat_blocks [where k = 2]) simp_all
  have ld: "length data = L"
    unfolding data_def L_def by (subst length_concat_blocks [where k = "nch * 2"]) (simp_all add: lb)
  have len: "length out = 44 + L" by (simp add: out l ld)
  have f1: "take 4 out = p1" by (simp add: out l)
  have f2: "take 4 (drop 4 out) = p2" by (simp add: out l)
  have f3: "take 4 (drop 8 out) = p3" by (simp add: out l)
  have f4: "take 4 (drop 12 out) = p4" by (simp add: out l)
  have f5: "take 4 (drop 16 out) = p5" by (simp add: out l)
  have f6: "take 2 (drop 20 out) = p6" by (simp add: out l)
  have f7: "take 2 (drop 22 out) = p7" by (simp add: out l)
  have f8: "take 4 (drop 24 out) = p8" by (simp add: out l)
  have f9: "take 4 (drop 28 out) = p9" by (simp add: out l)
  have f10: "take 2 (drop 32 out) = p10" by (simp add: out l)
  have f11: "take 2 (drop 34 out) = p11" by (simp add: out l)
  have f12: "take 4 (drop 36 out) = p12" by (simp add: out l)
  have f13: "take 4 (drop 40 out) = p13" by (simp add: out l)
  have dd: "drop (44 + k) out = drop k data" for k by (simp add: out l)
  have e: "(2::nat) ^ 32 = 4294967296" "(2::nat) ^ 16 = 65536" "(2::int) ^ 32 = 4294967296" by simp_all
  have r2: "rd_le out 4 4 = (36 + L) mod 2 ^ 32"
    using rd_le_int_le_4 [OF f2 [unfolded p2_def]] by (simp only: nat_int_mod e)
  have r13: "rd_le out 40 4 = L mod 2 ^ 32"
    using rd_le_int_le_4 [OF f13 [unfolded p13_def]] by (simp only: nat_int_mod e)
  have fits: "36 + L < 2 ^ 32 \<longrightarrow> rd_le out 4 4 = 36 + L \<and> rd_le out 40 4 = L"
    using r2 r13 by simp
  have r5: "rd_le out 16 4 = 16" using rd_le_int_le_4 [OF f5 [unfolded p5_def]] by simp
  have r6: "rd_le out 20 2 = 1" using rd_le_int_le_2 [OF f6 [unfolded p6_def]] by simp
  have r7: "rd_le out 22 2 = nch mod 2 ^ 16"
    using rd_le_int_le_2 [OF f7 [unfolded p7_def]] by (simp only: nat_int_mod e)
  have r8: "rd_le out 24 4 = nat (js_trunc (sampleRate abuffer) mod 2 ^ 32)"
    using rd_le_int_le_4 [OF f8 [unfolded p8_def]] by simp
  have r9: "rd_le out 28 4 = nat (js_trunc (sampleRate abuffer * 2 * real nch) mod 2 ^ 32)"
    using rd_le_int_le_4 [OF f9 [unfolded p9_def]] by simp
  have r10: "rd_le out 32 2 = (nch * 2) mod 2 ^ 16"
    using rd_le_int_le_2 [OF f10 [unfolded p10_def]] by (simp only: nat_int_mod e)
  have r11: "rd_le out 34 2 = 16" using rd_le_int_le_2 [OF f11 [unfolded p11_def]] by simp
  have samples: "\<forall>i<frames. \<forall>ch<nch.
               rd_int16 out (44 + 2 * (i * nch + ch)) =
                 (if i < blength abuffer
                  then js_trunc (scale16 (clamp_sample (getChannelData h abuffer ch ! i)))
                  else 0) \<and>
               - 1 \<le> clamp_sample (getChannelData h abuffer ch ! i) \<and>
               clamp_sample (getChannelData h abuffer ch ! i) \<le> 1 \<and>
               - 32768 \<le> js_trunc (scale16 (clamp_sample (getChannelData h abuffer ch ! i))) \<and>
               js_trunc (scale16 (clamp_sample (getChannelData h abuffer ch ! i))) \<le> 32767"
  proof (intro allI impI)
    fix i ch assume i: "i < frames" and ch: "ch < nch"
    let ?x = "getChannelData h abuffer ch ! i"
    let ?v = "frame_value (getChannelData h abuffer ch) i"
    have cl: "- 1 \<le> clamp_sample ?x \<and> clamp_sample ?x \<le> 1" by (rule clamp_sample_range)
    have rg: "- 32768 \<le> js_trunc (scale16 (clamp_sample ?x)) \<and>
              js_trunc (scale16 (clamp_sample ?x)) \<le> 32767"
      using scale16_range cl by blast
    have fv: "?v = (if i < blength abuffer then js_trunc (scale16 (clamp_sample ?x)) else 0)"
      using wf_bufferD(5) [OF wf, of ch] ch by (simp add: frame_value_def nch_def)
    have vr: "- 32768 \<le> ?v" "?v \<le> 32767" using rg fv by auto
    have b1: "take (nch * 2) (drop (i * (nch * 2)) data) = block i"
      unfolding data_def using concat_block [of frames block "nch * 2" i] lb i by blast
    have b2: "take 2 (drop (ch * 2) (block i)) = int_le 2 ?v"
      unfolding block_def
      using concat_block [of nch "\<lambda>ch. int_le 2 (frame_value (getChannelData h abuffer ch) i)" 2 ch] ch
      by simp
    have "take 2 (drop (ch * 2) (take (nch * 2) (drop (i * (nch * 2)) data)))
            = take 2 (drop (ch * 2 + i * (nch * 2)) data)"
    proof -
      have "ch * 2 + 2 \<le> nch * 2" using ch by simp
      then have m: "min 2 (nch * 2 - ch * 2) = 2" by simp
      show ?thesis by (simp add: drop_take m)
    qed
    then have t: "take 2 (drop (ch * 2 + i * (nch * 2)) data) = int_le 2 ?v" using b1 b2 by simp
    have k: "2 * (i * nch + ch) = ch * 2 + i * (nch * 2)" by simp
    have "take 2 (drop (44 + 2 * (i * nch + ch)) out) = int_le 2 ?v"
      unfolding dd k by (rule t)
    from rd_int16_int_le [OF this vr]
    have "rd_int16 out (44 + 2 * (i * nch + ch)) = ?v" .
    then show "rd_int16 out (44 + 2 * (i * nch + ch)) =
                 (if i < blength abuffer
                  then js_trunc (scale16 (clamp_sample ?x))
                  else 0) \<and>
               - 1 \<le> clamp_sample ?x \<and> clamp_sample ?x \<le> 1 \<and>
               - 32768 \<le> js_trunc (scale16 (clamp_sample ?x)) \<and>
               js_trunc (scale16 (clamp_sample ?x)) \<le> 32767"
      using fv cl rg by simp
  qed
  show ?thesis
    unfolding Let_def nch_def [symmetric] frames_def [symmetric] L_def [symmetric] out_def [symmetric]
    using len f1 f3 f4 f12 r2 r13 fits r5 r6 r7 r8 r9 r10 r11 samples
    unfolding p1_def p3_def p4_def p12_def
    by (intro conjI) 
qed

theorem bufferToWave_layout_witness:
  "wf_buffer store0 buffer0 \<and>
   length (bufferToWave store0 buffer0 (Some 4)) = 60 \<and>
   rd_le (bufferToWave store0 buffer0 (Some 4)) 4 4 = 52 \<and>
   rd_le (bufferToWave store0 buffer0 (Some 4)) 40 4 = 16 \<and>
   rd_int16 (bufferToWave store0 buffer0 (Some 4)) 44 = 16383 \<and>
   rd_int16 (bufferToWave store0 buffer0 (Some 4)) 46 = 0 \<and>
   rd_int16 (bufferToWave store0 buffer0 (Some 4)) 58 = - 32768"
proof -
  define out where "out = bufferToWave store0 buffer0 (Some 4)"
  have w: "wave_length buffer0 (Some 4) = 4" by (simp add: wave_length_def)
  from bufferToWave_layout [OF wf_buffer0, of "Some 4"]
  have l: "length out = 60" and r: "rd_le out 4 4 = 52" "rd_le out 40 4 = 16"
    and s: "\<forall>i<4. \<forall>ch<2.
               rd_int16 out (44 + 2 * (i * 2 + ch)) =
                 js_trunc (scale16 (clamp_sample (getChannelData store0 buffer0 ch ! i)))"
    unfolding Let_def w out_def [symmetric] by (simp_all add: buffer0_simps)
  have "rd_int16 out 44 = 16383"
    using s [rule_format, of 0 0]
    by (simp add: buffer0_simps clamp_sample_def scale16_def js_trunc_def)
  moreover have "rd_int16 out 46 = 0"
    using s [rule_format, of 0 1]
    by (simp add: buffer0_simps clamp_sample_def scale16_def js_trunc_def)
  moreover have "rd_int16 out 58 = - 32768"
    using s [rule_format, of 3 1]
    by (simp add: buffer0_simps clamp_sample_def scale16_def js_trunc_def)
  ultimately show ?thesis using wf_buffer0 l r unfolding out_def by blast
qed

text \<open>
  A frame count of 2^31 for one channel: 2^32 bytes of samples are written, and the data
  size field of the header holds 0.
\<close>

theorem bufferToWave_size_wraps:
  "length (bufferToWave [[0]] \<lparr>sampleRate = 44100, blength = 1, channelData = [0]\<rparr> (Some 2147483648))
     = 44 + 4294967296 \<and>
   rd_le (bufferToWave [[0]] \<lparr>sampleRate = 44100, blength = 1, channelData = [0]\<rparr> (Some 2147483648)) 40 4
     = 0 \<and>
   rd_le (bufferToWave [[0]] \<lparr>sampleRate = 44100, blength = 1, channelData = [0]\<rparr> (Some 2147483648)) 4 4
     = 36"
proof -
  have w: "wave_length \<lparr>sampleRate = 44100, blength = 1, channelData = [0]\<rparr> (Some 2147483648) = 2147483648"
    by (simp add: wave_length_def)
  have n: "numberOfChannels \<lparr>sampleRate = 44100, blength = 1, channelData = [0]\<rparr> = 1"
    by (simp add: numberOfChannels_def)
  show ?thesis
    unfolding bufferToWave_sizes w n by simp
qed

section \<open>The export pipeline\<close>

text \<open>
  C3. The export renders the player's buffer offline, normalizes the rendered buffer and
  encodes it. The scan of the normalizing step finds the peak, the greatest absolute
  value of a sample of the rendered buffer over all channels (0 when all samples are 0).
  When the peak is greater than 0, every sample of every channel is multiplied by
  0.98 / peak and the peak of the result is exactly 0.98, in exact arithmetic; when the
  peak is 0, nothing is changed.
\<close>

theorem normalize_peak:
  assumes ob: "originalBuffer p = Some b" and wf: "wf_buffer h b" and rok: "renderer_ok render"
  shows "\<exists>h1 rb.
           startRendering render h (ExportChain (eqGains p) (masterGain p))
             (numberOfChannels b) (blength b) (sampleRate b) b = (h1, rb) \<and>
           wf_buffer h1 rb \<and>
           getProcessedWavBlob render h p =
             Some (normalize h1 rb, bufferToWave (normalize h1 rb) rb (Some (blength rb))) \<and>
           (let P = max_peak h1 rb; h' = normalize h1 rb
            in (\<forall>c<numberOfChannels rb. \<forall>i<blength rb. \<bar>getChannelData h1 rb c ! i\<bar> \<le> P) \<and>
               (P = 0 \<or> (\<exists>c<numberOfChannels rb. \<exists>i<blength rb. \<bar>getChannelData h1 rb c ! i\<bar> = P)) \<and>
               (if 0 < P
                then (\<forall>c<numberOfChannels rb.
                        getChannelData h' rb c = map (\<lambda>x. x * ((98 / 100) / P)) (getChannelData h1 rb c)) \<and>
                     max_peak h' rb = 98 / 100
                else h' = h1))"
proof -
  let ?nch = "numberOfChannels b"
  let ?n = "blength b"
  have nch0: "0 < ?nch" and n0: "0 < ?n" using wf_bufferD(1,2) [OF wf] by blast+
  from startRendering_ok [OF rok nch0 n0, of h "ExportChain (eqGains p) (masterGain p)" "sampleRate b" b]
  obtain out where
    sr: "startRendering render h (ExportChain (eqGains p) (masterGain p)) ?nch ?n (sampleRate b) b =
           (h @ out, \<lparr>sampleRate = sampleRate b, blength = ?n, channelData = [length h ..< length h + ?nch]\<rparr>)"
    and out: "length out = ?nch" "\<forall>c<?nch. length (out ! c) = ?n"
    by blast
  define rb where "rb = \<lparr>sampleRate = sampleRate b, blength = ?n, channelData = [length h ..< length h + ?nch]\<rparr>"
  define h1 where "h1 = h @ out"
  have wf1: "wf_buffer h1 rb"
    using nch0 n0 out by (auto simp: wf_buffer_def rb_def h1_def list_all_length nth_append)
  have sr': "startRendering render h (ExportChain (eqGains p) (masterGain p)) ?nch ?n (sampleRate b) b = (h1, rb)"
    using sr by (simp add: h1_def rb_def)
  have blob: "getProcessedWavBlob render h p =
             Some (normalize h1 rb, bufferToWave (normalize h1 rb) rb (Some (blength rb)))"
    using ob sr' by (simp add: getProcessedWavBlob_def Let_def)
  show ?thesis
    by (rule exI [of _ h1], rule exI [of _ rb]) (intro conjI sr' wf1 blob normalize_scales [OF wf1])
qed

lemma renderer_ok_flat: "renderer_ok (flat_render v)"
  by (simp add: renderer_ok_def flat_render_def list_all_length)

theorem normalize_peak_witness:
  "(let b = \<lparr>sampleRate = 2, blength = 2, channelData = [0]\<rparr>;
        p = \<lparr>originalBuffer = Some b, activeRegion = None, currentEffectType = None,
             effectParams = \<lparr>amount = None, time = None, feedback = None, bits = None,
                             normFreq = None, volume = None\<rparr>,
             eqGains = [0, 0, 0, 0, 0, 0, 0, 0, 0, 0], masterGain = Some (4 / 5)\<rparr>;
        h1 = [[1 / 4, - 1], [1 / 2, 1 / 2]];
        rb = \<lparr>sampleRate = 2, blength = 2, channelData = [1]\<rparr>
    in originalBuffer p = Some b \<and> wf_buffer [[1 / 4, - 1]] b \<and> renderer_ok (flat_render (1 / 2)) \<and>
       max_peak h1 rb = 1 / 2 \<and>
       max_peak (normalize h1 rb) rb = 98 / 100 \<and>
       getChannelData (normalize h1 rb) rb 0 = [98 / 100, 98 / 100] \<and>
       getProcessedWavBlob (flat_render (1 / 2)) [[1 / 4, - 1]] p =
         Some (normalize h1 rb, bufferToWave (normalize h1 rb) rb (Some 2)))"
proof -
  define b where "b = \<lparr>sampleRate = 2, blength = 2, channelData = [0]\<rparr>"
  define p where "p = \<lparr>originalBuffer = Some b, activeRegion = None, currentEffectType = None,
             effectParams = \<lparr>amount = None, time = None, feedback = None, bits = None,
                             normFreq = None, volume = None\<rparr>,
             eqGains = [0, 0, 0, 0, 0, 0, 0, 0, 0, 0 :: real], masterGain = Some (4 / 5 :: real)\<rparr>"
  define h1 where "h1 = [[1 / 4, - 1], [1 / 2, 1 / 2 :: real]]"
  define rb where "rb = \<lparr>sampleRate = 2, blength = 2, channelData = [1]\<rparr>"
  have ob: "originalBuffer p = Some b" by (simp add: p_def)
  have wf: "wf_buffer [[1 / 4, - 1]] b" by (simp add: wf_buffer_def b_def)
  have sr: "startRendering (flat_render (1 / 2)) [[1 / 4, - 1]] (ExportChain (eqGains p) (masterGain p))
              (numberOfChannels b) (blength b) (sampleRate b) b = (h1, rb)"
    by (simp add: startRendering_def flat_render_def numberOfChannels_def b_def h1_def rb_def
          numeral_2_eq_2)
  have P: "max_peak h1 rb = 1 / 2"
    by (simp add: max_peak_def scan_peak_def numberOfChannels_def getChannelData_def h1_def rb_def)
  have c: "(0::nat) < numberOfChannels rb" by (simp add: numberOfChannels_def rb_def)
  from normalize_peak [OF ob wf renderer_ok_flat [of "1 / 2"]] sr
  have blob: "getProcessedWavBlob (flat_render (1 / 2)) [[1 / 4, - 1]] p =
             Some (normalize h1 rb, bufferToWave (normalize h1 rb) rb (Some (blength rb)))"
    and n: "let P = max_peak h1 rb; h' = normalize h1 rb
            in (\<forall>c<numberOfChannels rb. \<forall>i<blength rb. \<bar>getChannelData h1 rb c ! i\<bar> \<le> P) \<and>
               (P = 0 \<or> (\<exists>c<numberOfChannels rb. \<exists>i<blength rb. \<bar>getChannelData h1 rb c ! i\<bar> = P)) \<and>
               (if 0 < P
                then (\<forall>c<numberOfChannels rb.
                        getChannelData h' rb c = map (\<lambda>x. x * ((98 / 100) / P)) (getChannelData h1 rb c)) \<and>
                     max_peak h' rb = 98 / 100
                else h' = h1)"
    by auto
  from n P c have m: "max_peak (normalize h1 rb) rb = 98 / 100"
    and g: "getChannelData (normalize h1 rb) rb 0 = map (\<lambda>x. x * ((98 / 100) / (1 / 2))) (getChannelData h1 rb 0)"
    unfolding Let_def by simp_all
  have g': "getChannelData (normalize h1 rb) rb 0 = [98 / 100, 98 / 100]"
    using g by (simp add: getChannelData_def h1_def rb_def)
  have bl: "blength rb = 2" by (simp add: rb_def)
  show ?thesis
    unfolding Let_def b_def [symmetric] p_def [symmetric] h1_def [symmetric] rb_def [symmetric]
    using ob wf renderer_ok_flat [of "1 / 2"] P m g' blob [unfolded bl] by (intro conjI)
qed

end
